theory Spec2Isabelle
  imports Complex_Main "HOL-Library.AList" "HOL-Library.Char_ord"
    "HOL-Library.List_Lexorder" "HOL-Library.Product_Lexorder"
begin

section \<open>Data model of ibd.py\<close>

text \<open>
  Python integers are \<open>int\<close> and window indices (positions of \<open>enumerate\<close>) are \<open>nat\<close>.
  A Python float is modelled by the real number it denotes. Comparisons of floats are
  exact; every sum, difference and quotient of floats that the callers compute is
  rounded to the nearest double, ties to even (section Floating-point arithmetic).
  Strings are lists of characters with code points below 256, compared
  lexicographically by code point.
\<close>

record Row =
  row_region :: string
  row_chr :: string
  row_start :: int
  row_end :: int
  row_length :: int
  row_a :: string
  row_b :: string
  row_ident :: real

record Win =
  win_chr :: string
  win_start :: int
  win_end :: int
  win_length :: int

text \<open>
  The dictionaries returned by \<open>finalize_segment\<close> and \<open>summarize_segment\<close>.
  \<open>n_gaps\<close> is present only in the dictionaries of the run-length caller.
\<close>

record segment =
  seg_chr :: string
  seg_start :: int
  seg_end :: int
  n_windows :: int
  covered_bp :: int
  mean_ident :: real
  min_ident :: real
  n_gaps :: "int option"
  frac_called :: real

text \<open>A track entry is \<open>(win_idx, ident, length)\<close>.\<close>

type_synonym track = "(nat \<times> real \<times> int) list"

text \<open>\<open>{idx: ident for idx, ident, _ in track_list}\<close>: a later entry overwrites.\<close>

definition ident_by_idx_of :: "track \<Rightarrow> (nat \<rightharpoonup> real)" where
  "ident_by_idx_of track_list =
     fold (\<lambda>(idx, ident, _) m. m(idx \<mapsto> ident)) track_list Map.empty"

text \<open>\<open>sum(w.length for w in wins[s:e+1])\<close>, with Python's slice semantics.\<close>

definition slice_length_sum :: "Win list \<Rightarrow> nat \<Rightarrow> nat \<Rightarrow> int" where
  "slice_length_sum wins s e = sum_list (map win_length (take (Suc e - s) (drop s wins)))"

section \<open>Floating-point arithmetic\<close>

text \<open>
  The arithmetic of Python floats, IEEE 754 binary64 in the default rounding mode: the
  exact result of an operation is rounded to the nearest number with a significand of
  53 bits, a tie going to the even significand. The exponent range is not bounded in
  this model, so overflow to an infinity, gradual underflow and NaN are not part of it.
\<close>

definition round_half_even :: "real \<Rightarrow> int" where
  "round_half_even q =
     (let f = \<lfloor>q\<rfloor>; r = q - of_int f
      in if r < 1 / 2 then f else if 1 / 2 < r then f + 1 else if even f then f else f + 1)"

text \<open>The binary exponent \<open>e\<close> of a positive number \<open>x\<close>: \<open>2 ^ e \<le> x < 2 ^ (e + 1)\<close>.\<close>

definition double_exponent :: "real \<Rightarrow> int" where
  "double_exponent x = (if x \<le> 0 then 0 else \<lfloor>log 2 x\<rfloor>)"

definition round_double :: "real \<Rightarrow> real" where
  "round_double x =
     (if x = 0 then 0
      else (let u = 2 powi (double_exponent \<bar>x\<bar> - 52)
            in of_int (round_half_even (x / u)) * u))"

text \<open>\<open>x + y\<close>, \<open>x - y\<close> and \<open>x / y\<close> on floats.\<close>

definition fadd :: "real \<Rightarrow> real \<Rightarrow> real" where
  "fadd x y = round_double (x + y)"

definition fsub :: "real \<Rightarrow> real \<Rightarrow> real" where
  "fsub x y = round_double (x - y)"

definition fdiv :: "real \<Rightarrow> real \<Rightarrow> real" where
  "fdiv x y = round_double (x / y)"

text \<open>
  \<open>float(n)\<close> of an integer, the conversion that \<open>x / n\<close> applies to an integer
  divisor, and \<open>m / n\<close> on two integers, which CPython rounds once from the exact
  quotient.
\<close>

definition float_of_int :: "int \<Rightarrow> real" where
  "float_of_int n = round_double (real_of_int n)"

definition int_truediv :: "int \<Rightarrow> int \<Rightarrow> real" where
  "int_truediv m n = round_double (real_of_int m / real_of_int n)"

text \<open>
  \<open>sum(xs)\<close> on a list of floats: the additions from left to right, starting from the
  integer 0, each rounded (the plain summation loop of CPython up to version 3.11).
\<close>

definition py_sum :: "real list \<Rightarrow> real" where
  "py_sum xs = foldl fadd 0 xs"

section \<open>Run-length caller\<close>

definition finalize_segment ::
  "nat \<times> nat \<Rightarrow> Win list \<Rightarrow> int \<Rightarrow> real \<Rightarrow> real \<Rightarrow> int \<Rightarrow> int \<Rightarrow> int \<Rightarrow> segment option" where
  "finalize_segment current wins called ident_sum min_id_run min_windows min_len_bp gaps_allowed =
     (let s = fst current; e = snd current;
          nw = int e - int s + 1;
          start_bp = win_start (wins ! s); end_bp = win_end (wins ! e);
          cov = slice_length_sum wins s e;
          mean = (if called > 0 then fdiv ident_sum (float_of_int called) else 0);
          frac = (if nw > 0 then int_truediv called nw else 0)
      in if nw \<ge> min_windows \<and> cov \<ge> min_len_bp
         then Some \<lparr> seg_chr = win_chr (wins ! s), seg_start = start_bp, seg_end = end_bp,
                     n_windows = nw, covered_bp = cov, mean_ident = mean,
                     min_ident = min_id_run, n_gaps = Some gaps_allowed, frac_called = frac \<rparr>
         else None)"

text \<open>The inner function \<open>qualifies\<close>; \<open>None\<close> is a window absent from the track.\<close>

definition qualifies :: "real \<Rightarrow> real \<Rightarrow> real option \<Rightarrow> bool" where
  "qualifies min_id drop_tolerance ident =
     (case ident of None \<Rightarrow> False
      | Some x \<Rightarrow> x \<ge> min_id \<or> (drop_tolerance > 0 \<and> x \<ge> fsub min_id drop_tolerance))"

text \<open>The local variables of the scan.\<close>

record rle_state =
  st_current :: "(nat \<times> nat) option"
  st_gaps :: int
  st_called :: int
  st_ident_sum :: real
  st_min_ident :: real
  st_segments :: "segment list"

definition rle_init :: rle_state where
  "rle_init = \<lparr> st_current = None, st_gaps = 0, st_called = 0, st_ident_sum = 0,
                 st_min_ident = 1, st_segments = [] \<rparr>"

text \<open>\<open>if seg: segments.append(seg)\<close>\<close>

definition append_seg :: "segment option \<Rightarrow> segment list \<Rightarrow> segment list" where
  "append_seg seg segments = (case seg of None \<Rightarrow> segments | Some g \<Rightarrow> segments @ [g])"

text \<open>\<open>current = None; gaps=0; called=0; ident_sum=0.0; min_ident=1.0\<close> after a finalize.\<close>

definition rle_close :: "segment option \<Rightarrow> rle_state \<Rightarrow> rle_state" where
  "rle_close seg st =
     \<lparr> st_current = None, st_gaps = 0, st_called = 0, st_ident_sum = 0, st_min_ident = 1,
       st_segments = append_seg seg (st_segments st) \<rparr>"

text \<open>\<open>current = {start_idx: i, end_idx: i}; gaps = 0; called = 1; ...\<close>\<close>

definition rle_open :: "nat \<Rightarrow> real \<Rightarrow> rle_state \<Rightarrow> rle_state" where
  "rle_open i x st =
     st\<lparr> st_current := Some (i, i), st_gaps := 0, st_called := 1, st_ident_sum := x,
         st_min_ident := x \<rparr>"

text \<open>
  One iteration of the \<open>while i < n_wins_total\<close> loop, at window index \<open>i\<close>.
  In the branch that closes a run over its gap budget the run has been open since an
  earlier index, so \<open>i - 1\<close> never truncates.
\<close>

definition rle_step ::
  "Win list \<Rightarrow> (nat \<rightharpoonup> real) \<Rightarrow> real \<Rightarrow> int \<Rightarrow> int \<Rightarrow> int \<Rightarrow> bool \<Rightarrow> real \<Rightarrow>
   nat \<Rightarrow> rle_state \<Rightarrow> rle_state" where
  "rle_step wins ident_by_idx min_id max_gap min_windows min_len_bp treat_missing_as_gap
     drop_tolerance i st =
     (let ident = ident_by_idx i;
          missing = (ident = None);
          good = (if \<not> missing then qualifies min_id drop_tolerance ident else False)
      in case st_current st of
           None \<Rightarrow> (if good then rle_open i (the ident) st else st)
         | Some cur \<Rightarrow>
             (if good \<or> (missing \<and> treat_missing_as_gap) then
                (let st1 = st\<lparr> st_current := Some (fst cur, i) \<rparr>;
                     st2 = (if missing then st1\<lparr> st_gaps := st_gaps st1 + 1 \<rparr>
                            else st1\<lparr> st_called := st_called st1 + 1,
                                     st_ident_sum := fadd (st_ident_sum st1) (the ident),
                                     st_min_ident := (if the ident < st_min_ident st1
                                                      then the ident else st_min_ident st1) \<rparr>)
                 in if st_gaps st2 > max_gap then
                      rle_close (finalize_segment (fst cur, i - 1) wins (st_called st2)
                                   (st_ident_sum st2) (st_min_ident st2)
                                   min_windows min_len_bp max_gap) st2
                    else st2)
              else
                (let st1 = rle_close (finalize_segment cur wins (st_called st)
                                        (st_ident_sum st) (st_min_ident st)
                                        min_windows min_len_bp (st_gaps st)) st
                 in if good then rle_open i (the ident) st1 else st1)))"

text \<open>The loop \<open>i = 0; while i < n_wins_total: ...; i += 1\<close>.\<close>

function rle_scan ::
  "Win list \<Rightarrow> (nat \<rightharpoonup> real) \<Rightarrow> real \<Rightarrow> int \<Rightarrow> int \<Rightarrow> int \<Rightarrow> bool \<Rightarrow> real \<Rightarrow>
   nat \<Rightarrow> nat \<Rightarrow> rle_state \<Rightarrow> rle_state" where
  "rle_scan wins ibi min_id max_gap min_windows min_len_bp tmg tol n i st =
     (if i < n
      then rle_scan wins ibi min_id max_gap min_windows min_len_bp tmg tol n (Suc i)
             (rle_step wins ibi min_id max_gap min_windows min_len_bp tmg tol i st)
      else st)"
  by pat_completeness auto
termination
  by (relation "measure (\<lambda>(wins, ibi, min_id, max_gap, min_windows, min_len_bp, tmg, tol, n, i, st). n - i)")
     auto

declare rle_scan.simps [simp del]

text \<open>The final open run is always finalized.\<close>

definition rle_finish :: "Win list \<Rightarrow> int \<Rightarrow> int \<Rightarrow> rle_state \<Rightarrow> segment list" where
  "rle_finish wins min_windows min_len_bp st =
     (case st_current st of
        None \<Rightarrow> st_segments st
      | Some cur \<Rightarrow>
          append_seg (finalize_segment cur wins (st_called st) (st_ident_sum st)
                        (st_min_ident st) min_windows min_len_bp (st_gaps st))
            (st_segments st))"

definition rle_segments_for_pair ::
  "track \<Rightarrow> Win list \<Rightarrow> real \<Rightarrow> int \<Rightarrow> int \<Rightarrow> int \<Rightarrow> bool \<Rightarrow> real \<Rightarrow> segment list" where
  "rle_segments_for_pair track_list wins min_id max_gap min_windows min_len_bp
     treat_missing_as_gap drop_tolerance =
     rle_finish wins min_windows min_len_bp
       (rle_scan wins (ident_by_idx_of track_list) min_id max_gap min_windows min_len_bp
          treat_missing_as_gap drop_tolerance (length wins) 0 rle_init)"

section \<open>Seed-and-extend caller\<close>

text \<open>\<open>ident is not None and ident >= seed_thr\<close>\<close>

definition seed_hit :: "(nat \<rightharpoonup> real) \<Rightarrow> real \<Rightarrow> nat \<Rightarrow> bool" where
  "seed_hit ident_by_idx seed_thr j =
     (case ident_by_idx j of None \<Rightarrow> False | Some x \<Rightarrow> x \<ge> seed_thr)"

text \<open>The inner loop \<open>while j < n and ...: run += 1; j += 1\<close>; returns \<open>(run, j)\<close>.\<close>

function seed_run :: "(nat \<rightharpoonup> real) \<Rightarrow> real \<Rightarrow> nat \<Rightarrow> nat \<Rightarrow> nat \<Rightarrow> nat \<times> nat" where
  "seed_run ident_by_idx seed_thr n run j =
     (if j < n \<and> seed_hit ident_by_idx seed_thr j
      then seed_run ident_by_idx seed_thr n (run + 1) (j + 1)
      else (run, j))"
  by pat_completeness auto
termination
  by (relation "measure (\<lambda>(ident_by_idx, seed_thr, n, run, j). n - j)") auto

declare seed_run.simps [simp del]

lemma seed_run_advances:
  "j < n \<Longrightarrow> seed_hit ident_by_idx seed_thr j \<Longrightarrow>
   j < snd (seed_run ident_by_idx seed_thr n run j)"
proof -
  have mono: "j \<le> snd (seed_run ident_by_idx seed_thr n run j)" for run j
  proof (induction ident_by_idx seed_thr n run j rule: seed_run.induct)
    case (1 ident_by_idx seed_thr n run j)
    show ?case
    proof (cases "j < n \<and> seed_hit ident_by_idx seed_thr j")
      case True
      with 1 have "j + 1 \<le> snd (seed_run ident_by_idx seed_thr n (run + 1) (j + 1))"
        by simp
      with True show ?thesis
        by (subst seed_run.simps) simp
    next
      case False
      then show ?thesis
        by (subst seed_run.simps) auto
    qed
  qed
  assume "j < n" "seed_hit ident_by_idx seed_thr j"
  then have "seed_run ident_by_idx seed_thr n run j
             = seed_run ident_by_idx seed_thr n (run + 1) (j + 1)"
    by (subst seed_run.simps) simp
  moreover have "j + 1 \<le> snd (seed_run ident_by_idx seed_thr n (run + 1) (j + 1))"
    by (rule mono)
  ultimately show ?thesis by simp
qed

text \<open>
  The outer loop \<open>while i < n\<close> collecting the seeds as inclusive index pairs.
  \<open>seed_k\<close> is a Python integer and may be zero or negative.
\<close>

function find_seeds ::
  "(nat \<rightharpoonup> real) \<Rightarrow> real \<Rightarrow> int \<Rightarrow> nat \<Rightarrow> nat \<Rightarrow> (nat \<times> nat) list \<Rightarrow> (nat \<times> nat) list" where
  "find_seeds ident_by_idx seed_thr seed_k n i seeds =
     (if i < n then
        (if seed_hit ident_by_idx seed_thr i then
           find_seeds ident_by_idx seed_thr seed_k n
             (snd (seed_run ident_by_idx seed_thr n 0 i))
             (if int (fst (seed_run ident_by_idx seed_thr n 0 i)) \<ge> seed_k
              then seeds @ [(i, snd (seed_run ident_by_idx seed_thr n 0 i) - 1)]
              else seeds)
         else find_seeds ident_by_idx seed_thr seed_k n (Suc i) seeds)
      else seeds)"
  by pat_completeness auto
termination
proof (relation "measure (\<lambda>(ident_by_idx, seed_thr, seed_k, n, i, seeds). n - i)")
  show "wf (measure (\<lambda>(ident_by_idx, seed_thr, seed_k, n, i, seeds). n - i))"
    by simp
next
  fix ident_by_idx :: "nat \<rightharpoonup> real" and seed_thr :: real and seed_k :: int
    and n i :: nat and seeds :: "(nat \<times> nat) list"
  assume "i < n" "seed_hit ident_by_idx seed_thr i"
  then have "i < snd (seed_run ident_by_idx seed_thr n 0 i)"
    by (rule seed_run_advances)
  with \<open>i < n\<close>
  show "((ident_by_idx, seed_thr, seed_k, n, snd (seed_run ident_by_idx seed_thr n 0 i),
          if seed_k \<le> int (fst (seed_run ident_by_idx seed_thr n 0 i))
          then seeds @ [(i, snd (seed_run ident_by_idx seed_thr n 0 i) - 1)] else seeds),
         ident_by_idx, seed_thr, seed_k, n, i, seeds)
        \<in> measure (\<lambda>(ident_by_idx, seed_thr, seed_k, n, i, seeds). n - i)"
    by simp
next
  fix ident_by_idx :: "nat \<rightharpoonup> real" and seed_thr :: real and seed_k :: int
    and n i :: nat and seeds :: "(nat \<times> nat) list"
  assume "i < n"
  then show "((ident_by_idx, seed_thr, seed_k, n, Suc i, seeds),
              ident_by_idx, seed_thr, seed_k, n, i, seeds)
             \<in> measure (\<lambda>(ident_by_idx, seed_thr, seed_k, n, i, seeds). n - i)"
    by simp
qed

declare find_seeds.simps [simp del]

text \<open>
  The body shared by the two extension loops, at window \<open>k\<close>, on the loop variables
  \<open>(best, score, best_score)\<close>. The result says how the iteration ends:
  \<open>Skip\<close> is the \<open>continue\<close> on a missing window that is not a gap, \<open>Stop\<close> the
  x-drop \<open>break\<close>, \<open>Go\<close> the normal end of the body.
\<close>

datatype 'a loop_exit = Skip | Stop 'a | Go 'a

definition extend_body ::
  "(nat \<rightharpoonup> real) \<Rightarrow> real \<Rightarrow> real \<Rightarrow> real \<Rightarrow> real \<Rightarrow> real \<Rightarrow> bool \<Rightarrow>
   nat \<Rightarrow> nat \<times> real \<times> real \<Rightarrow> (nat \<times> real \<times> real) loop_exit" where
  "extend_body ident_by_idx ext_thr xdrop reward pen_bad pen_miss treat_missing_as_gap k v =
     (case v of (best, score, best_score) \<Rightarrow>
        (let ident = ident_by_idx k in
         if ident = None \<and> \<not> treat_missing_as_gap then Skip
         else
           (let score1 = (case ident of
                            None \<Rightarrow> fsub score pen_miss
                          | Some x \<Rightarrow> if x \<ge> ext_thr then fadd score reward
                                      else fsub score pen_bad);
                best_score1 = (if score1 > best_score then score1 else best_score);
                best1 = (if score1 > best_score then k else best)
            in if fsub best_score1 score1 > xdrop then Stop (best1, score1, best_score1)
               else Go (best1, score1, best_score1))))"

text \<open>
  \<open>k = s - 1; while k >= 0: ...; k -= 1\<close>. The numeric argument is \<open>k + 1\<close>, the number
  of windows still to the left, so that the loop ends when it reaches zero.
\<close>

fun extend_left ::
  "(nat \<Rightarrow> nat \<times> real \<times> real \<Rightarrow> (nat \<times> real \<times> real) loop_exit) \<Rightarrow>
   nat \<Rightarrow> nat \<times> real \<times> real \<Rightarrow> nat" where
  "extend_left body 0 v = fst v"
| "extend_left body (Suc k) v =
     (case body k v of
        Skip \<Rightarrow> extend_left body k v
      | Stop v1 \<Rightarrow> fst v1
      | Go v1 \<Rightarrow> extend_left body k v1)"

text \<open>\<open>k = e + 1; while k < n: ...; k += 1\<close>\<close>

function extend_right ::
  "(nat \<Rightarrow> nat \<times> real \<times> real \<Rightarrow> (nat \<times> real \<times> real) loop_exit) \<Rightarrow>
   nat \<Rightarrow> nat \<Rightarrow> nat \<times> real \<times> real \<Rightarrow> nat" where
  "extend_right body n k v =
     (if k < n then
        (case body k v of
           Skip \<Rightarrow> extend_right body n (Suc k) v
         | Stop v1 \<Rightarrow> fst v1
         | Go v1 \<Rightarrow> extend_right body n (Suc k) v1)
      else fst v)"
  by pat_completeness auto
termination
  by (relation "measure (\<lambda>(body, n, k, v). n - k)") auto

declare extend_right.simps [simp del]

text \<open>\<open>[ident_by_idx[i] for i in range(s, e+1) if i in ident_by_idx]\<close>\<close>

definition called_idents :: "(nat \<rightharpoonup> real) \<Rightarrow> nat \<Rightarrow> nat \<Rightarrow> real list" where
  "called_idents ident_by_idx s e = List.map_filter ident_by_idx [s..<Suc e]"

definition summarize_segment :: "nat \<Rightarrow> nat \<Rightarrow> Win list \<Rightarrow> (nat \<rightharpoonup> real) \<Rightarrow> segment" where
  "summarize_segment s e wins ident_by_idx =
     (let start_bp = win_start (wins ! s); end_bp = win_end (wins ! e);
          nw = int e - int s + 1;
          cov = slice_length_sum wins s e;
          cs = called_idents ident_by_idx s e;
          mean = (if cs \<noteq> [] then fdiv (py_sum cs) (float_of_int (int (length cs))) else 0);
          mn = (if cs \<noteq> [] then Min (set cs) else 0);
          frac = (if nw > 0 then int_truediv (int (length cs)) nw else 0)
      in \<lparr> seg_chr = win_chr (wins ! s), seg_start = start_bp, seg_end = end_bp,
           n_windows = nw, covered_bp = cov, mean_ident = mean, min_ident = mn,
           n_gaps = None, frac_called = frac \<rparr>)"

text \<open>
  \<open>merge_segments\<close>: a stable sort on \<open>(chr, start, end)\<close>, then one pass that widens
  the last output segment or appends. The statistics of a widened segment are kept.
\<close>

definition merge_key :: "segment \<Rightarrow> string \<times> int \<times> int" where
  "merge_key s = (seg_chr s, seg_start s, seg_end s)"

definition merge_step :: "segment \<Rightarrow> segment list \<Rightarrow> segment list" where
  "merge_step s out =
     (let l = last out in
      if seg_chr s = seg_chr l \<and> seg_start s \<le> seg_end l
      then butlast out @ [l\<lparr> seg_start := min (seg_start l) (seg_start s),
                              seg_end := max (seg_end l) (seg_end s) \<rparr>]
      else out @ [s])"

definition merge_segments :: "segment list \<Rightarrow> Win list \<Rightarrow> segment list" where
  "merge_segments segs wins =
     (if segs = [] then []
      else (let sorted_segs = sort_key merge_key segs
            in fold merge_step (tl sorted_segs) [hd sorted_segs]))"

text \<open>\<open>all(used[k] for k in range(s, e+1))\<close> and \<open>for k in range(l, r+1): used[k] = True\<close>\<close>

definition all_used :: "bool list \<Rightarrow> nat \<Rightarrow> nat \<Rightarrow> bool" where
  "all_used used s e = list_all (\<lambda>k. used ! k) [s..<Suc e]"

definition mark_used :: "bool list \<Rightarrow> nat \<Rightarrow> nat \<Rightarrow> bool list" where
  "mark_used used l r = fold (\<lambda>k u. u[k := True]) [l..<Suc r] used"

text \<open>One iteration of \<open>for (s, e) in seeds\<close>, on \<open>(used, segments)\<close>.\<close>

definition seed_extend_one ::
  "Win list \<Rightarrow> (nat \<rightharpoonup> real) \<Rightarrow> real \<Rightarrow> real \<Rightarrow> real \<Rightarrow> real \<Rightarrow> real \<Rightarrow> int \<Rightarrow> int \<Rightarrow> bool \<Rightarrow>
   nat \<times> nat \<Rightarrow> bool list \<times> segment list \<Rightarrow> bool list \<times> segment list" where
  "seed_extend_one wins ident_by_idx ext_thr xdrop reward pen_bad pen_miss min_windows
     min_len_bp treat_missing_as_gap seed acc =
     (case seed of (s, e) \<Rightarrow> case acc of (used, segments) \<Rightarrow>
        if all_used used s e then (used, segments)
        else
          (let body = extend_body ident_by_idx ext_thr xdrop reward pen_bad pen_miss
                        treat_missing_as_gap;
               best_left = extend_left body s (s, 0, 0);
               best_right = extend_right body (length wins) (e + 1) (e, 0, 0);
               seg = summarize_segment best_left best_right wins ident_by_idx
           in if n_windows seg \<ge> min_windows \<and> covered_bp seg \<ge> min_len_bp
              then (mark_used used best_left best_right, segments @ [seg])
              else (used, segments)))"

definition seed_extend_segments_for_pair ::
  "track \<Rightarrow> Win list \<Rightarrow> real \<Rightarrow> int \<Rightarrow> real \<Rightarrow> real \<Rightarrow> real \<Rightarrow> real \<Rightarrow> real \<Rightarrow> int \<Rightarrow> int \<Rightarrow>
   bool \<Rightarrow> segment list" where
  "seed_extend_segments_for_pair track_list wins seed_thr seed_k ext_thr xdrop reward pen_bad
     pen_miss min_windows min_len_bp treat_missing_as_gap =
     (let ident_by_idx = ident_by_idx_of track_list;
          n = length wins;
          used = replicate n False;
          seeds = find_seeds ident_by_idx seed_thr seed_k n 0 [];
          segments = snd (fold (seed_extend_one wins ident_by_idx ext_thr xdrop reward pen_bad
                                  pen_miss min_windows min_len_bp treat_missing_as_gap)
                            seeds (used, []))
      in merge_segments segments wins)"

section \<open>Table ingestion\<close>

datatype py_error =
    SystemExit_missing_columns
  | SystemExit_no_valid_rows
  | KeyError
  | ValueError

text \<open>The required column set \<open>req\<close> of \<open>parse_table\<close>.\<close>

definition req :: "string \<Rightarrow> string set" where
  "req identity_col =
     {''REGION'', ''CHR'', ''START'', ''END'', ''LENGTH'', ''group.a'', ''group.b'', identity_col}"

text \<open>
  The body of the \<open>try\<close> block on one record of the reader, a map from column names
  to cells. The conversions \<open>int(...)\<close> and \<open>float(...)\<close> of the Python runtime are
  parameters: they answer \<open>None\<close> where Python raises. Any exception skips the record.
  A cell is \<open>None\<close> in the map where the line is shorter than the header; such a
  record is skipped here also when only text cells are missing, where the reader
  would hand on a row with \<open>None\<close> in those fields.
\<close>

definition parse_row ::
  "(string \<Rightarrow> int option) \<Rightarrow> (string \<Rightarrow> real option) \<Rightarrow> string \<Rightarrow> (string \<rightharpoonup> string) \<Rightarrow>
   Row option" where
  "parse_row py_int py_float identity_col r =
     (case (r ''REGION'', r ''CHR'', Option.bind (r ''START'') py_int,
            Option.bind (r ''END'') py_int, Option.bind (r ''LENGTH'') py_int,
            r ''group.a'', r ''group.b'', Option.bind (r identity_col) py_float) of
        (Some region, Some c, Some s, Some e, Some l, Some a, Some b, Some x) \<Rightarrow>
          Some \<lparr> row_region = region, row_chr = c, row_start = s, row_end = e,
                 row_length = l, row_a = a, row_b = b, row_ident = x \<rparr>
      | _ \<Rightarrow> None)"

text \<open>
  \<open>parse_table\<close> on the reader's \<open>fieldnames\<close> (\<open>None\<close> for a file without a header line)
  and its records. \<open>not dr.fieldnames or not set(dr.fieldnames).issuperset(req)\<close> exits.
\<close>

definition parse_table ::
  "(string \<Rightarrow> int option) \<Rightarrow> (string \<Rightarrow> real option) \<Rightarrow> string list option \<Rightarrow>
   (string \<rightharpoonup> string) list \<Rightarrow> string \<Rightarrow> py_error + Row list" where
  "parse_table py_int py_float fieldnames records identity_col =
     (case fieldnames of
        None \<Rightarrow> Inl SystemExit_missing_columns
      | Some names \<Rightarrow>
          if names = [] \<or> \<not> (req identity_col \<subseteq> set names)
          then Inl SystemExit_missing_columns
          else Inr (List.map_filter (parse_row py_int py_float identity_col) records))"

section \<open>Window index and pair tracks\<close>

definition pair_key :: "string \<Rightarrow> string \<Rightarrow> string \<times> string" where
  "pair_key a b = (if a \<le> b then (a, b) else (b, a))"

text \<open>
  Dictionaries whose iteration order matters are association lists in insertion order:
  \<open>AList.map_default k v f\<close> applies \<open>f\<close> to the entry of \<open>k\<close> or appends \<open>(k, v)\<close>.
\<close>

text \<open>\<open>uniq[r.chr][(r.start, r.end, r.length)] = None\<close>\<close>

definition uniq_add ::
  "Row \<Rightarrow> (string \<times> (int \<times> int \<times> int) list) list \<Rightarrow> (string \<times> (int \<times> int \<times> int) list) list" where
  "uniq_add r uniq =
     (let t = (row_start r, row_end r, row_length r)
      in AList.map_default (row_chr r) [t] (\<lambda>d. if t \<in> set d then d else d @ [t]) uniq)"

text \<open>\<open>{(w.start, w.end): i for i, w in enumerate(wins)}\<close>\<close>

definition index_of_wins :: "Win list \<Rightarrow> (int \<times> int \<rightharpoonup> nat)" where
  "index_of_wins wins =
     fold (\<lambda>(i, w) m. m((win_start w, win_end w) \<mapsto> i)) (enumerate 0 wins) Map.empty"

definition build_windows ::
  "Row list \<Rightarrow> (string \<times> Win list) list \<times> (string \<times> (int \<times> int \<rightharpoonup> nat)) list" where
  "build_windows rows =
     (let uniq = fold uniq_add rows [];
          wins_by_chr =
            map (\<lambda>(c, d). (c, map (\<lambda>(s, e, l). \<lparr> win_chr = c, win_start = s, win_end = e,
                                                  win_length = l \<rparr>) (sort d))) uniq;
          index_by_chr = map (\<lambda>(c, wins). (c, index_of_wins wins)) wins_by_chr
      in (wins_by_chr, index_by_chr))"

type_synonym tracks = "((string \<times> string) \<times> (string \<times> track) list) list"

text \<open>
  The first loop of \<open>build_pair_tracks\<close>. \<open>index_by_chr[r.chr]\<close> raises on an unknown
  chromosome; a window that is not indexed skips the row.
\<close>

fun track_rows ::
  "(string \<times> (int \<times> int \<rightharpoonup> nat)) list \<Rightarrow> Row list \<Rightarrow> tracks \<Rightarrow> py_error + tracks" where
  "track_rows index_by_chr [] tracks = Inr tracks"
| "track_rows index_by_chr (r # rows) tracks =
     (case map_of index_by_chr (row_chr r) of
        None \<Rightarrow> Inl KeyError
      | Some index \<Rightarrow>
          (case index (row_start r, row_end r) of
             None \<Rightarrow> track_rows index_by_chr rows tracks
           | Some idx \<Rightarrow>
               (let entry = (idx, row_ident r, row_length r)
                in track_rows index_by_chr rows
                     (AList.map_default (pair_key (row_a r) (row_b r)) [(row_chr r, [entry])]
                        (AList.map_default (row_chr r) [entry] (\<lambda>t. t @ [entry]))
                        tracks))))"

definition build_pair_tracks ::
  "Row list \<Rightarrow> (string \<times> (int \<times> int \<rightharpoonup> nat)) list \<Rightarrow> py_error + tracks" where
  "build_pair_tracks rows index_by_chr =
     (case track_rows index_by_chr rows [] of
        Inl err \<Rightarrow> Inl err
      | Inr tracks \<Rightarrow>
          Inr (map (\<lambda>(p, by_chr). (p, map (\<lambda>(c, t). (c, sort_key fst t)) by_chr)) tracks))"

section \<open>Orchestration\<close>

datatype mode = Rle | Seed

record config =
  cfg_mode :: mode
  cfg_min_windows :: int
  cfg_min_length_bp :: int
  cfg_missing_as_gap :: bool
  cfg_min_identity :: real
  cfg_max_gap :: int
  cfg_drop_tolerance :: real
  cfg_seed_threshold :: real
  cfg_seed_k :: int
  cfg_extend_threshold :: real
  cfg_xdrop :: real
  cfg_reward :: real
  cfg_penalty_bad :: real
  cfg_penalty_miss :: real

text \<open>The dispatch on \<open>args.mode\<close> inside the loops of \<open>main\<close>.\<close>

definition call_segments :: "config \<Rightarrow> track \<Rightarrow> Win list \<Rightarrow> segment list" where
  "call_segments cfg track_list wins =
     (case cfg_mode cfg of
        Rle \<Rightarrow>
          rle_segments_for_pair track_list wins (cfg_min_identity cfg) (cfg_max_gap cfg)
            (cfg_min_windows cfg) (cfg_min_length_bp cfg) (cfg_missing_as_gap cfg)
            (cfg_drop_tolerance cfg)
      | Seed \<Rightarrow>
          seed_extend_segments_for_pair track_list wins (cfg_seed_threshold cfg) (cfg_seed_k cfg)
            (cfg_extend_threshold cfg) (cfg_xdrop cfg) (cfg_reward cfg) (cfg_penalty_bad cfg)
            (cfg_penalty_miss cfg) (cfg_min_windows cfg) (cfg_min_length_bp cfg)
            (cfg_missing_as_gap cfg))"

text \<open>
  Reading the allow-list, on the lines of the file (each with its line end).
  \<open>py_isspace\<close> is the white space that \<open>str.strip\<close> removes, among the code points
  below 256: the ASCII white space, the separators U+001C to U+001F, the next-line
  control U+0085 and the no-break space U+00A0.
\<close>

definition py_isspace :: "char \<Rightarrow> bool" where
  "py_isspace c = (of_char c \<in> {9, 10, 11, 12, 13, 28, 29, 30, 31, 32, 133, 160 :: nat})"

definition skipped_line :: "string \<Rightarrow> bool" where
  "skipped_line line = (list_all py_isspace line \<or> take 1 line = ''#'')"

definition rstrip_newline :: "string \<Rightarrow> string" where
  "rstrip_newline line = rev (dropWhile (\<lambda>c. c = CHR 0x0A) (rev line))"

fun split_on :: "char \<Rightarrow> string \<Rightarrow> string list" where
  "split_on c [] = [[]]"
| "split_on c (x # xs) =
     (if x = c then [] # split_on c xs
      else (x # hd (split_on c xs)) # tl (split_on c xs))"

fun load_pairs :: "string list \<Rightarrow> (string \<times> string) list \<Rightarrow> py_error + (string \<times> string) list" where
  "load_pairs [] pair_filter = Inr pair_filter"
| "load_pairs (line # lines) pair_filter =
     (if skipped_line line then load_pairs lines pair_filter
      else (case take 2 (split_on (CHR 0x09) (rstrip_newline line)) of
              [a, b] \<Rightarrow> load_pairs lines (List.insert (pair_key a b) pair_filter)
            | _ \<Rightarrow> Inl ValueError))"

text \<open>
  \<open>pair_filter\<close> is \<open>None\<close> without \<open>--pairs\<close>, else the set read from the file's lines.
\<close>

definition read_pair_filter ::
  "string list option \<Rightarrow> py_error + (string \<times> string) list option" where
  "read_pair_filter pairs_file =
     (case pairs_file of
        None \<Rightarrow> Inr None
      | Some lines \<Rightarrow> (case load_pairs lines [] of Inl err \<Rightarrow> Inl err | Inr s \<Rightarrow> Inr (Some s)))"

text \<open>\<open>if pair_filter and pair_key(a,b) not in pair_filter: continue\<close>\<close>

definition pair_skipped :: "(string \<times> string) list option \<Rightarrow> string \<times> string \<Rightarrow> bool" where
  "pair_skipped pair_filter p =
     (case pair_filter of
        None \<Rightarrow> False
      | Some s \<Rightarrow> s \<noteq> [] \<and> pair_key (fst p) (snd p) \<notin> set s)"

text \<open>A written line; the numeric formatting of the writer is not modelled.\<close>

record out_row =
  o_chr :: string
  o_start :: int
  o_end :: int
  o_hap1 :: string
  o_hap2 :: string
  o_n_windows :: int
  o_covered_bp :: int
  o_mean_identity :: real
  o_min_identity :: real
  o_fraction_called :: real
  o_mode :: mode

definition write_row :: "config \<Rightarrow> string \<Rightarrow> string \<times> string \<Rightarrow> segment \<Rightarrow> out_row" where
  "write_row cfg c p s =
     \<lparr> o_chr = c, o_start = seg_start s, o_end = seg_end s, o_hap1 = fst p, o_hap2 = snd p,
       o_n_windows = n_windows s, o_covered_bp = covered_bp s,
       o_mean_identity = mean_ident s, o_min_identity = min_ident s,
       o_fraction_called = frac_called s, o_mode = cfg_mode cfg \<rparr>"

text \<open>\<open>for chr_, track in tracks_by_chr.items()\<close>; \<open>wins_by_chr[chr_]\<close> raises when absent.\<close>

fun emit_chrs ::
  "config \<Rightarrow> (string \<times> Win list) list \<Rightarrow> string \<times> string \<Rightarrow> (string \<times> track) list \<Rightarrow>
   out_row list \<Rightarrow> py_error + out_row list" where
  "emit_chrs cfg wins_by_chr p [] out = Inr out"
| "emit_chrs cfg wins_by_chr p ((c, track_list) # rest) out =
     (case map_of wins_by_chr c of
        None \<Rightarrow> Inl KeyError
      | Some wins \<Rightarrow>
          emit_chrs cfg wins_by_chr p rest
            (out @ map (write_row cfg c p) (call_segments cfg track_list wins)))"

text \<open>\<open>for (a, b), tracks_by_chr in tracks.items()\<close>\<close>

fun emit_pairs ::
  "config \<Rightarrow> (string \<times> string) list option \<Rightarrow> (string \<times> Win list) list \<Rightarrow> tracks \<Rightarrow>
   out_row list \<Rightarrow> py_error + out_row list" where
  "emit_pairs cfg pair_filter wins_by_chr [] out = Inr out"
| "emit_pairs cfg pair_filter wins_by_chr ((p, by_chr) # rest) out =
     (if pair_skipped pair_filter p then emit_pairs cfg pair_filter wins_by_chr rest out
      else (case emit_chrs cfg wins_by_chr p by_chr out of
              Inl err \<Rightarrow> Inl err
            | Inr out1 \<Rightarrow> emit_pairs cfg pair_filter wins_by_chr rest out1))"

text \<open>
  \<open>main\<close> after the parsing of the table: the rows, the configuration and the lines of
  the optional allow-list give the written rows or the error that ends the run.
\<close>

definition main_rows ::
  "config \<Rightarrow> string list option \<Rightarrow> Row list \<Rightarrow> py_error + out_row list" where
  "main_rows cfg pairs_file rows =
     (if rows = [] then Inl SystemExit_no_valid_rows
      else
        (let wi = build_windows rows in
         case build_pair_tracks rows (snd wi) of
           Inl err \<Rightarrow> Inl err
         | Inr tracks \<Rightarrow>
             (case read_pair_filter pairs_file of
                Inl err \<Rightarrow> Inl err
              | Inr pair_filter \<Rightarrow> emit_pairs cfg pair_filter (fst wi) tracks [])))"

section \<open>The toy table of generate_toys.py\<close>

text \<open>
  \<open>toy1\<close>: ten windows of 5000 bp on \<open>chr1\<close>; the pair \<open>(A, B)\<close> has identity 0.9998 on
  windows 1 to 6, except 0.9997 on window 4, and 0.9950 elsewhere.
\<close>

definition toy1_win :: "nat \<Rightarrow> Win" where
  "toy1_win i = \<lparr> win_chr = ''chr1'', win_start = int i * 5000,
                  win_end = int i * 5000 + 5000, win_length = 5000 \<rparr>"

definition toy1_wins :: "Win list" where
  "toy1_wins = [toy1_win 0, toy1_win 1, toy1_win 2, toy1_win 3, toy1_win 4, toy1_win 5,
                toy1_win 6, toy1_win 7, toy1_win 8, toy1_win 9]"

definition toy1_track :: track where
  "toy1_track = [(0, 0.9950, 5000), (1, 0.9998, 5000), (2, 0.9998, 5000), (3, 0.9998, 5000),
                 (4, 0.9997, 5000), (5, 0.9998, 5000), (6, 0.9998, 5000), (7, 0.9950, 5000),
                 (8, 0.9950, 5000), (9, 0.9950, 5000)]"

text \<open>
  \<open>toy3\<close>: six rows of the pair \<open>(A, B)\<close> on \<open>chr1\<close>; the table has no row for the
  windows at 15000 and 20000, so the index has six windows.
\<close>

definition toy_row :: "string \<Rightarrow> nat \<Rightarrow> string \<Rightarrow> string \<Rightarrow> real \<Rightarrow> Row" where
  "toy_row region i a b ident =
     \<lparr> row_region = region, row_chr = ''chr1'', row_start = int i * 5000,
       row_end = int i * 5000 + 5000, row_length = 5000, row_a = a, row_b = b,
       row_ident = ident \<rparr>"

definition toy3_rows :: "Row list" where
  "toy3_rows =
     [toy_row ''CHM13#0#chr1:0-5000'' 0 ''A'' ''B'' 0.9950,
      toy_row ''CHM13#0#chr1:5000-10000'' 1 ''A'' ''B'' 0.9997,
      toy_row ''CHM13#0#chr1:10000-15000'' 2 ''A'' ''B'' 0.9998,
      toy_row ''CHM13#0#chr1:25000-30000'' 5 ''A'' ''B'' 0.9998,
      toy_row ''CHM13#0#chr1:30000-35000'' 6 ''A'' ''B'' 0.9998,
      toy_row ''CHM13#0#chr1:35000-40000'' 7 ''A'' ''B'' 0.9950]"

definition toy3_wins :: "Win list" where
  "toy3_wins = [toy1_win 0, toy1_win 1, toy1_win 2, toy1_win 5, toy1_win 6, toy1_win 7]"

definition toy3_track :: track where
  "toy3_track = [(0, 0.9950, 5000), (1, 0.9997, 5000), (2, 0.9998, 5000), (3, 0.9998, 5000),
                 (4, 0.9998, 5000), (5, 0.9950, 5000)]"

text \<open>The defaults of the argument parser.\<close>

definition default_config :: config where
  "default_config =
     \<lparr> cfg_mode = Seed, cfg_min_windows = 3, cfg_min_length_bp = 5000,
       cfg_missing_as_gap = False, cfg_min_identity = 0.9995, cfg_max_gap = 1,
       cfg_drop_tolerance = 0, cfg_seed_threshold = 0.9998, cfg_seed_k = 2,
       cfg_extend_threshold = 0.9995, cfg_xdrop = 2, cfg_reward = 1, cfg_penalty_bad = 1,
       cfg_penalty_miss = 1 \<rparr>"

text \<open>The input transformation of the symmetry property: both labels of a row swapped.\<close>

definition swap_groups :: "Row \<Rightarrow> Row" where
  "swap_groups r = r\<lparr> row_a := row_b r, row_b := row_a r \<rparr>"

text \<open>Three candidate segments on one chromosome, two of them overlapping.\<close>

definition toy_cand :: "int \<Rightarrow> int \<Rightarrow> int \<Rightarrow> segment" where
  "toy_cand s e nw =
     \<lparr> seg_chr = ''chr1'', seg_start = s, seg_end = e, n_windows = nw, covered_bp = e - s,
       mean_ident = 0.9998, min_ident = 0.9997, n_gaps = None, frac_called = 1 \<rparr>"

definition toy_cands :: "segment list" where
  "toy_cands = [toy_cand 40000 50000 2, toy_cand 15000 30000 3, toy_cand 10000 20000 2]"

text \<open>The invariant of the merge pass on one chromosome.\<close>

definition merge_inv :: "segment list \<Rightarrow> segment list \<Rightarrow> bool" where
  "merge_inv out rest =
     (out \<noteq> [] \<and> sorted (map seg_start (out @ rest))
      \<and> sorted_wrt (\<lambda>a b. seg_end a < seg_start b) out)"

text \<open>The size filter shared by both callers.\<close>

definition passes :: "int \<Rightarrow> int \<Rightarrow> segment \<Rightarrow> bool" where
  "passes min_windows min_len_bp g = (n_windows g \<ge> min_windows \<and> covered_bp g \<ge> min_len_bp)"

text \<open>
  A full seed run: at least \<open>seed_k\<close> consecutive indices from \<open>s\<close> to \<open>e\<close>, each present
  in the track with identity at least \<open>seed_thr\<close>.
\<close>

definition is_seed_run :: "(nat \<rightharpoonup> real) \<Rightarrow> real \<Rightarrow> int \<Rightarrow> nat \<Rightarrow> nat \<Rightarrow> bool" where
  "is_seed_run ident_by_idx seed_thr seed_k s e =
     (s \<le> e \<and> seed_k \<le> int (e - s + 1) \<and> (\<forall>k\<in>{s..e}. seed_hit ident_by_idx seed_thr k))"

text \<open>What the merge pass may do to a candidate: move its end to the right.\<close>

definition widened :: "segment \<Rightarrow> segment \<Rightarrow> bool" where
  "widened g0 g = (\<exists>e. seg_end g0 \<le> e \<and> g = g0\<lparr> seg_end := e \<rparr>)"

definition chr_start :: "segment \<Rightarrow> string \<times> int" where
  "chr_start g = (seg_chr g, seg_start g)"

text \<open>An extension body only ever moves the best position to the current window.\<close>

definition body_moves :: "(nat \<Rightarrow> nat \<times> real \<times> real \<Rightarrow> (nat \<times> real \<times> real) loop_exit) \<Rightarrow> bool" where
  "body_moves body =
     (\<forall>k v v1. body k v = Go v1 \<or> body k v = Stop v1 \<longrightarrow> fst v1 = fst v \<or> fst v1 = k)"

text \<open>An index range inside the window list that contains a full seed run.\<close>

definition is_candidate :: "Win list \<Rightarrow> (nat \<rightharpoonup> real) \<Rightarrow> real \<Rightarrow> int \<Rightarrow> nat \<Rightarrow> nat \<Rightarrow> bool" where
  "is_candidate wins ibi seed_thr seed_k l r =
     (r < length wins \<and> (\<exists>s e. l \<le> s \<and> e \<le> r \<and> is_seed_run ibi seed_thr seed_k s e))"

text \<open>The invariant of the merge pass that relates its output to the candidates.\<close>

definition widen_inv :: "segment list \<Rightarrow> segment list \<Rightarrow> segment list \<Rightarrow> bool" where
  "widen_inv segs out rest =
     (out \<noteq> [] \<and> sorted (map chr_start (out @ rest)) \<and> set rest \<subseteq> set segs
      \<and> (\<forall>g\<in>set out. \<exists>g0\<in>set segs. widened g0 g))"

text \<open>The bounds of the reported called fraction of a segment.\<close>

definition stats_ok :: "segment \<Rightarrow> bool" where
  "stats_ok g = (0 < frac_called g \<and> frac_called g \<le> 1)"

text \<open>
  The invariant of the scan before window \<open>i\<close>, for a gap budget that is not negative:
  an open run ends at \<open>i - 1\<close>, and its counters describe its windows.
\<close>

definition run_inv :: "int \<Rightarrow> nat \<Rightarrow> rle_state \<Rightarrow> bool" where
  "run_inv max_gap i st =
     (case st_current st of
        None \<Rightarrow> True
      | Some cur \<Rightarrow>
          fst cur \<le> snd cur \<and> Suc (snd cur) = i \<and> 1 \<le> st_called st \<and> 0 \<le> st_gaps st
          \<and> st_gaps st \<le> max_gap
          \<and> st_called st + st_gaps st = int (snd cur) - int (fst cur) + 1)"

text \<open>
  Five windows for the gap scenarios: a track with one sub-threshold window between
  qualifying ones, and a track that lacks windows 1 and 3.
\<close>

definition gap_wins :: "Win list" where
  "gap_wins = [toy1_win 0, toy1_win 1, toy1_win 2, toy1_win 3, toy1_win 4]"

definition track_dip :: track where
  "track_dip = [(0, 0.9998, 5000), (1, 0.9950, 5000), (2, 0.9998, 5000), (3, 0.9998, 5000),
                (4, 0.9998, 5000)]"

definition track_holes :: track where
  "track_holes = [(0, 0.9998, 5000), (2, 0.9998, 5000), (4, 0.9998, 5000)]"

text \<open>
  Three windows that all have the identity 0.9995, as the float that \<open>float\<close> reads
  from the table.
\<close>

definition flat_wins :: "Win list" where
  "flat_wins = [toy1_win 0, toy1_win 1, toy1_win 2]"

definition flat_track :: track where
  "flat_track = [(0, round_double 0.9995, 5000), (1, round_double 0.9995, 5000),
                 (2, round_double 0.9995, 5000)]"

section \<open>Evaluation rules\<close>

lemmas rle_eval =
  rle_segments_for_pair_def ident_by_idx_of_def rle_scan.simps rle_step_def rle_init_def
  qualifies_def rle_open_def rle_close_def finalize_segment_def append_seg_def
  slice_length_sum_def rle_finish_def Let_def

section \<open>Properties of the floating-point operations\<close>

lemma double_exponent_bounds:
  assumes "0 < x"
  shows "2 powi double_exponent x \<le> x" and "x < 2 powi (double_exponent x + 1)"
proof -
  have "\<lfloor>log 2 x\<rfloor> = double_exponent x" using assms by (simp add: double_exponent_def)
  then have "2 powr real_of_int (double_exponent x) \<le> x
             \<and> x < 2 powr (real_of_int (double_exponent x) + 1)"
    using assms by (simp add: floor_log_eq_powr_iff)
  then have "2 powr real_of_int (double_exponent x) \<le> x"
     "x < 2 powr real_of_int (double_exponent x + 1)"
    by (simp_all add: add.commute)
  then show "2 powi double_exponent x \<le> x" and "x < 2 powi (double_exponent x + 1)"
    by (simp_all only: powr_real_of_int' [of 2, simplified])
qed

lemma double_exponent_unique:
  assumes "2 powi e \<le> x" "x < 2 powi (e + 1)"
  shows "double_exponent x = e"
proof -
  have pos: "0 < x" using assms(1) by (smt (verit) zero_less_power_int)
  have "2 powr real_of_int e \<le> x \<and> x < 2 powr (real_of_int e + 1)"
    using assms powr_real_of_int' [of 2 e] powr_real_of_int' [of 2 "e + 1"]
    by (simp add: add.commute)
  then have "\<lfloor>log 2 x\<rfloor> = e"
    using pos by (simp add: floor_log_eq_powr_iff)
  then show ?thesis using pos by (simp add: double_exponent_def)
qed

text \<open>The exponent by halving and doubling; this is the equation that evaluation uses.\<close>

lemma double_exponent_code [code]:
  "double_exponent x =
     (if x \<le> 0 then 0
      else if 2 \<le> x then double_exponent (x / 2) + 1
      else if x < 1 then double_exponent (2 * x) - 1
      else 0)"
proof (cases "x \<le> 0")
  case True
  then show ?thesis by (simp add: double_exponent_def)
next
  case False
  then have pos: "0 < x" by simp
  note b = double_exponent_bounds [OF pos]
  show ?thesis
  proof (cases "2 \<le> x")
    case True
    have "double_exponent (x / 2) = double_exponent x - 1"
    proof (rule double_exponent_unique)
      show "2 powi (double_exponent x - 1) \<le> x / 2"
        using b(1) by (simp add: power_int_diff)
      show "x / 2 < 2 powi (double_exponent x - 1 + 1)"
        using b(2) by (simp add: power_int_add)
    qed
    then show ?thesis using pos True by simp
  next
    case F2: False
    show ?thesis
    proof (cases "x < 1")
      case True
      have "double_exponent (2 * x) = double_exponent x + 1"
      proof (rule double_exponent_unique)
        show "2 powi (double_exponent x + 1) \<le> 2 * x"
          using b(1) by (simp add: power_int_add)
        show "2 * x < 2 powi (double_exponent x + 1 + 1)"
          using b(2) by (simp add: power_int_add)
      qed
      then show ?thesis using pos True F2 by simp
    next
      case False
      have "double_exponent x = 0"
        by (rule double_exponent_unique) (use False F2 in simp_all)
      then show ?thesis using pos False F2 by simp
    qed
  qed
qed

lemma round_half_even_lower: "\<lfloor>q\<rfloor> \<le> round_half_even q"
  by (simp add: round_half_even_def Let_def)

lemma round_half_even_upper: "round_half_even q \<le> \<lceil>q\<rceil>"
proof (cases "q = of_int \<lfloor>q\<rfloor>")
  case True
  then have "q - of_int \<lfloor>q\<rfloor> < 1 / 2" by simp
  then have "round_half_even q = \<lfloor>q\<rfloor>" by (simp add: round_half_even_def Let_def)
  then show ?thesis by simp
next
  case False
  then have "\<lceil>q\<rceil> = \<lfloor>q\<rfloor> + 1" by (simp add: ceiling_altdef)
  then show ?thesis by (simp add: round_half_even_def Let_def)
qed

text \<open>Rounding keeps a number of the interval from 0 (excluded) to 1 in that interval.\<close>

lemma round_double_unit:
  assumes "0 < x" "x \<le> 1"
  shows "0 < round_double x \<and> round_double x \<le> 1"
proof -
  define e where "e = double_exponent x"
  have lo: "2 powi e \<le> x"
    using double_exponent_bounds(1) [OF assms(1)] by (simp add: e_def)
  have e0: "e \<le> 0"
  proof (rule ccontr)
    assume "\<not> e \<le> 0"
    then have "1 \<le> e" by simp
    then have "(2::real) powi 1 \<le> 2 powi e" by (intro power_int_increasing) simp_all
    with lo assms(2) show False by simp
  qed
  define m where "m = nat (- e)"
  define p :: real where "p = 2 ^ (m + 52)"
  have em: "e = - int m" using e0 by (simp add: m_def)
  have u: "(2::real) powi (e - 52) = inverse p"
  proof -
    have "e - 52 = - int (m + 52)" by (simp add: em)
    then show ?thesis by (simp only: power_int_minus power_int_of_nat p_def)
  qed
  have p0: "0 < p" by (simp add: p_def)
  have rd: "round_double x = of_int (round_half_even (x * p)) / p"
    using assms(1) p0 by (simp add: round_double_def Let_def e_def [symmetric] u divide_inverse)
  have "(2::real) powi e = inverse (2 ^ m)"
    by (simp only: em power_int_minus power_int_of_nat)
  then have "inverse (2 ^ m) \<le> x" using lo by simp
  then have "inverse (2 ^ m) * 2 ^ m \<le> x * 2 ^ m"
    by (intro mult_right_mono) simp_all
  then have "1 \<le> x * 2 ^ m" by simp
  then have "2 ^ 52 \<le> x * 2 ^ m * 2 ^ 52" by simp
  then have low: "of_int (2 ^ 52) \<le> x * p"
    by (simp add: p_def power_add mult.assoc)
  have "x * p \<le> p" using assms(2) p0 by simp
  then have upp: "x * p \<le> of_int (2 ^ (m + 52))" by (simp add: p_def)
  have "1 \<le> x * p" using low by simp
  then have "0 < \<lfloor>x * p\<rfloor>" by simp
  then have "0 < round_half_even (x * p)"
    using round_half_even_lower [of "x * p"] by linarith
  then have pos: "0 < round_double x" using p0 by (simp add: rd)
  have "\<lceil>x * p\<rceil> \<le> 2 ^ (m + 52)" using upp by (simp only: ceiling_le_iff)
  then have "round_half_even (x * p) \<le> 2 ^ (m + 52)"
    using round_half_even_upper [of "x * p"] by linarith
  then have "real_of_int (round_half_even (x * p)) \<le> real_of_int (2 ^ (m + 52))"
    by (simp only: of_int_le_iff)
  then have "real_of_int (round_half_even (x * p)) \<le> p" by (simp add: p_def)
  then have "round_double x \<le> 1" using p0 by (simp add: rd)
  with pos show ?thesis by simp
qed

lemma int_truediv_unit:
  assumes "0 < a" "a \<le> b"
  shows "0 < int_truediv a b \<and> int_truediv a b \<le> 1"
  unfolding int_truediv_def using assms by (intro round_double_unit) simp_all

section \<open>The run-length scenario\<close>

text \<open>
  Claim C4. On the toy track with \<open>min_identity = 0.9995\<close>, \<open>max_gap = 1\<close>,
  \<open>min_windows = 3\<close>, \<open>min_length_bp = 5000\<close> and no drop tolerance, the run-length
  caller emits exactly one segment: it starts at the start of window 1 (5000) and ends
  at the end of window 6 (35000), with 6 windows and 30000 covered base pairs, whatever
  the treatment of missing windows.
\<close>

theorem rle_toy1_scenario:
  "map (\<lambda>g. (seg_chr g, seg_start g, seg_end g, n_windows g, covered_bp g))
     (rle_segments_for_pair toy1_track toy1_wins 0.9995 1 3 5000 treat_missing_as_gap 0)
   = [(''chr1'', win_start (toy1_wins ! 1), win_end (toy1_wins ! 6), 6, 30000)]
   \<and> win_start (toy1_wins ! 1) = 5000 \<and> win_end (toy1_wins ! 6) = 35000"
  by (simp add: rle_eval toy1_track_def toy1_wins_def toy1_win_def del: not_None_eq)

section \<open>The schema check\<close>

text \<open>
  Claim C3 as stated makes the check fail exactly when the required columns are not a
  superset of the header. The code checks the converse inclusion: a header with the
  required columns and one more is accepted although the required set does not contain
  it, and a header that lacks \<open>REGION\<close> is refused although the required set contains it.
\<close>

theorem schema_check_counterexample:
  "parse_table (\<lambda>c. None) (\<lambda>c. None)
     (Some [''REGION'', ''CHR'', ''START'', ''END'', ''LENGTH'', ''group.a'', ''group.b'',
            ''estimated.identity'', ''NOTE'']) [] ''estimated.identity'' = Inr []
   \<and> \<not> set [''REGION'', ''CHR'', ''START'', ''END'', ''LENGTH'', ''group.a'', ''group.b'',
            ''estimated.identity'', ''NOTE''] \<subseteq> req ''estimated.identity''
   \<and> parse_table (\<lambda>c. None) (\<lambda>c. None)
       (Some [''CHR'', ''START'', ''END'', ''LENGTH'', ''group.a'', ''group.b'',
              ''estimated.identity'']) [] ''estimated.identity''
     = Inl SystemExit_missing_columns
   \<and> set [''CHR'', ''START'', ''END'', ''LENGTH'', ''group.a'', ''group.b'',
          ''estimated.identity''] \<subseteq> req ''estimated.identity''"
  by (simp add: parse_table_def req_def)

text \<open>
  Claim C3, amended. Ingestion exits with the missing-columns error exactly when the
  file has no header or the header is not a superset of the required columns;
  otherwise it returns the records that convert, in order.
\<close>

theorem parse_table_schema_check:
  "parse_table py_int py_float fieldnames records identity_col =
     (if fieldnames \<noteq> None \<and> req identity_col \<subseteq> set (the fieldnames)
      then Inr (List.map_filter (parse_row py_int py_float identity_col) records)
      else Inl SystemExit_missing_columns)"
proof (cases fieldnames)
  case None
  then show ?thesis by (simp add: parse_table_def)
next
  case (Some names)
  have "req identity_col \<subseteq> set names \<Longrightarrow> names \<noteq> []"
    by (auto simp: req_def)
  with Some show ?thesis
    by (auto simp: parse_table_def)
qed

section \<open>The pipeline on the toy table\<close>

lemma toy3_pipeline:
  "main_rows default_config None toy3_rows =
     Inr [\<lparr> o_chr = ''chr1'', o_start = 5000, o_end = 35000, o_hap1 = ''A'', o_hap2 = ''B'',
            o_n_windows = 4, o_covered_bp = 20000,
            o_mean_identity = fdiv (py_sum [0.9997, 0.9998, 0.9998, 0.9998]) (float_of_int 4),
            o_min_identity = 9997 / 10000, o_fraction_called = 1, o_mode = Seed \<rparr>]"
  by code_simp

section \<open>Pair-key symmetry\<close>

lemma pair_key_commute: "pair_key b a = pair_key a b"
  by (auto simp: pair_key_def)

lemma uniq_add_swap: "uniq_add (swap_groups r) = uniq_add r"
  by (rule ext) (simp add: uniq_add_def swap_groups_def)

lemma build_windows_swap: "build_windows (map swap_groups rows) = build_windows rows"
  by (simp add: build_windows_def fold_map comp_def uniq_add_swap)

lemma track_rows_swap:
  "track_rows index_by_chr (map swap_groups rows) tracks = track_rows index_by_chr rows tracks"
proof (induction rows arbitrary: tracks)
  case Nil
  show ?case by simp
next
  case (Cons r rows)
  have "pair_key (row_a (swap_groups r)) (row_b (swap_groups r)) = pair_key (row_a r) (row_b r)"
    by (simp add: swap_groups_def pair_key_commute)
  then show ?case
    using Cons.IH by (simp add: swap_groups_def split: option.splits)
qed

lemma build_pair_tracks_swap:
  "build_pair_tracks (map swap_groups rows) index_by_chr = build_pair_tracks rows index_by_chr"
  by (simp add: build_pair_tracks_def track_rows_swap)

text \<open>
  Claim C8. Swapping the two group labels on every row changes nothing: the run gives
  the same written rows, under the same canonical pair keys, or ends in the same error.
\<close>

theorem pipeline_pair_key_symmetry:
  "main_rows cfg pairs_file (map swap_groups rows) = main_rows cfg pairs_file rows"
  by (simp add: main_rows_def build_windows_swap build_pair_tracks_swap)

theorem pipeline_pair_key_symmetry_witness:
  "main_rows default_config None (map swap_groups toy3_rows) =
     Inr [\<lparr> o_chr = ''chr1'', o_start = 5000, o_end = 35000, o_hap1 = ''A'', o_hap2 = ''B'',
            o_n_windows = 4, o_covered_bp = 20000,
            o_mean_identity = fdiv (py_sum [0.9997, 0.9998, 0.9998, 0.9998]) (float_of_int 4),
            o_min_identity = 9997 / 10000, o_fraction_called = 1, o_mode = Seed \<rparr>]
   \<and> map row_a (map swap_groups toy3_rows) = [''B'', ''B'', ''B'', ''B'', ''B'', ''B'']"
proof -
  have "map row_a (map swap_groups toy3_rows) = [''B'', ''B'', ''B'', ''B'', ''B'', ''B'']"
    by (simp add: toy3_rows_def swap_groups_def toy_row_def)
  then show ?thesis
    using pipeline_pair_key_symmetry [of default_config None toy3_rows] toy3_pipeline
    by simp
qed

section \<open>The pair allow-list\<close>

lemma load_pairs_skipped:
  "list_all skipped_line lines \<Longrightarrow> load_pairs lines pair_filter = Inr pair_filter"
  by (induction lines) simp_all

lemma emit_pairs_empty_filter:
  "emit_pairs cfg (Some []) wins_by_chr tracks out = emit_pairs cfg None wins_by_chr tracks out"
  by (induction cfg "Some [] :: (string \<times> string) list option" wins_by_chr tracks out
        rule: emit_pairs.induct)
     (simp_all add: pair_skipped_def split: sum.splits)

text \<open>
  Claim C9. When every line of the allow-list is blank or a comment, the filter read
  from it is the empty set, the empty set skips no pair, and the run is the run
  without an allow-list: every pair of the input is processed.
\<close>

theorem empty_allow_list_disables_filtering:
  assumes "list_all skipped_line lines"
  shows "read_pair_filter (Some lines) = Inr (Some [])
         \<and> \<not> pair_skipped (Some []) p
         \<and> main_rows cfg (Some lines) rows = main_rows cfg None rows"
proof -
  have r: "read_pair_filter (Some lines) = Inr (Some [])"
    using assms by (simp add: read_pair_filter_def load_pairs_skipped)
  have n: "read_pair_filter None = Inr None"
    by (simp add: read_pair_filter_def)
  have "main_rows cfg (Some lines) rows = main_rows cfg None rows"
    by (simp add: main_rows_def r n emit_pairs_empty_filter Let_def split: sum.splits)
  with r show ?thesis
    by (simp add: pair_skipped_def)
qed

theorem empty_allow_list_witness:
  "list_all skipped_line [''# no pairs'' @ [CHR 0x0A], [CHR 0x0A], ''  '' @ [CHR 0x0A]]
   \<and> read_pair_filter (Some [''# no pairs'' @ [CHR 0x0A], [CHR 0x0A], ''  '' @ [CHR 0x0A]])
       = Inr (Some [])
   \<and> \<not> pair_skipped (Some []) (''A'', ''B'')
   \<and> main_rows default_config
        (Some [''# no pairs'' @ [CHR 0x0A], [CHR 0x0A], ''  '' @ [CHR 0x0A]]) toy3_rows
     = Inr [\<lparr> o_chr = ''chr1'', o_start = 5000, o_end = 35000, o_hap1 = ''A'', o_hap2 = ''B'',
              o_n_windows = 4, o_covered_bp = 20000,
            o_mean_identity = fdiv (py_sum [0.9997, 0.9998, 0.9998, 0.9998]) (float_of_int 4),
              o_min_identity = 9997 / 10000, o_fraction_called = 1, o_mode = Seed \<rparr>]"
proof -
  have h: "list_all skipped_line [''# no pairs'' @ [CHR 0x0A], [CHR 0x0A], ''  '' @ [CHR 0x0A]]"
    by (simp add: skipped_line_def py_isspace_def)
  show ?thesis
    using h empty_allow_list_disables_filtering [OF h, of "(''A'', ''B'')" default_config toy3_rows]
      toy3_pipeline
    by simp
qed

section \<open>Merging\<close>

lemma merge_inv_step:
  assumes inv: "merge_inv out (s # rest)"
    and chr: "seg_chr s = seg_chr (last out)"
  shows "merge_inv (merge_step s out) rest"
proof -
  from inv have ne: "out \<noteq> []" by (simp add: merge_inv_def)
  define l where "l = last out"
  define bs where "bs = butlast out"
  have out: "out = bs @ [l]" using ne by (simp add: l_def bs_def)
  from inv have srt: "sorted (map seg_start (bs @ l # s # rest))"
    by (simp add: merge_inv_def out)
  from inv have sep: "sorted_wrt (\<lambda>a b. seg_end a < seg_start b) (bs @ [l])"
    by (simp add: merge_inv_def out)
  have ls: "seg_start l \<le> seg_start s"
    using srt by (simp add: sorted_append)
  show ?thesis
  proof (cases "seg_start s \<le> seg_end l")
    case True
    define l' where "l' = l\<lparr> seg_start := min (seg_start l) (seg_start s),
                              seg_end := max (seg_end l) (seg_end s) \<rparr>"
    have st: "seg_start l' = seg_start l" using ls by (simp add: l'_def)
    have ms: "merge_step s out = bs @ [l']"
      using True chr by (simp add: merge_step_def l'_def out Let_def)
    have "sorted (map seg_start (bs @ l' # rest))"
      using srt st by (auto simp: sorted_append)
    moreover have "sorted_wrt (\<lambda>a b. seg_end a < seg_start b) (bs @ [l'])"
      using sep st by (auto simp: sorted_wrt_append)
    ultimately show ?thesis
      by (simp add: merge_inv_def ms)
  next
    case False
    have ms: "merge_step s out = bs @ [l, s]"
      using False by (simp add: merge_step_def out Let_def)
    have "\<forall>x\<in>set bs. seg_end x < seg_start s"
      using sep ls by (auto simp: sorted_wrt_append)
    then have "sorted_wrt (\<lambda>a b. seg_end a < seg_start b) (bs @ [l, s])"
      using sep False by (auto simp: sorted_wrt_append)
    then show ?thesis
      using srt by (simp add: merge_inv_def ms)
  qed
qed

lemma merge_step_chr:
  "out \<noteq> [] \<Longrightarrow> \<forall>x\<in>set out. seg_chr x = c \<Longrightarrow> seg_chr s = c \<Longrightarrow>
   \<forall>x\<in>set (merge_step s out). seg_chr x = c"
  by (auto simp: merge_step_def Let_def dest: in_set_butlastD)

lemma merge_step_nonempty: "merge_step s out \<noteq> []"
  by (simp add: merge_step_def Let_def)

lemma merge_inv_fold:
  "merge_inv out rest \<Longrightarrow> \<forall>x\<in>set out. seg_chr x = c \<Longrightarrow> \<forall>x\<in>set rest. seg_chr x = c \<Longrightarrow>
   merge_inv (fold merge_step rest out) []"
proof (induction rest arbitrary: out)
  case Nil
  then show ?case by simp
next
  case (Cons s rest)
  from Cons.prems(1) have ne: "out \<noteq> []" by (simp add: merge_inv_def)
  then have "seg_chr (last out) = c" using Cons.prems(2) by simp
  with Cons.prems have "merge_inv (merge_step s out) rest"
    by (intro merge_inv_step) simp_all
  moreover have "\<forall>x\<in>set (merge_step s out). seg_chr x = c"
    using ne Cons.prems by (intro merge_step_chr) simp_all
  ultimately show ?case
    using Cons.IH Cons.prems(3) by simp
qed

lemma sorted_keys_same_chr:
  assumes "sorted (map merge_key xs)" "\<forall>x\<in>set xs. seg_chr x = c"
  shows "sorted (map seg_start xs)"
  using assms
  by (induction xs) (auto simp: merge_key_def less_eq_prod_def)

lemma merge_segments_inv:
  assumes "\<forall>s\<in>set segs. seg_chr s = c" "segs \<noteq> []"
  shows "merge_inv (merge_segments segs wins) []"
proof -
  define ss where "ss = sort_key merge_key segs"
  have ne: "ss \<noteq> []" using assms(2) by (metis ss_def length_sort length_0_conv)
  have chr: "\<forall>x\<in>set ss. seg_chr x = c" using assms(1) by (simp add: ss_def)
  have "sorted (map merge_key ss)" by (simp add: ss_def)
  then have srt: "sorted (map seg_start ss)" using chr by (rule sorted_keys_same_chr)
  from ne obtain h t where ht: "ss = h # t" by (cases ss) auto
  have "merge_inv [h] t" using srt by (simp add: merge_inv_def ht)
  then have "merge_inv (fold merge_step t [h]) []"
    using chr by (intro merge_inv_fold[where c = c]) (simp_all add: ht)
  then show ?thesis
    using assms(2) by (simp add: merge_segments_def ss_def[symmetric] ht Let_def)
qed

text \<open>
  Claim C7. For candidate segments that all lie on one chromosome, the merged list is
  ordered by start and any later segment starts strictly after the end of any earlier
  one: no two output ranges overlap.
\<close>

theorem merge_segments_no_overlap:
  assumes "\<forall>s\<in>set segs. seg_chr s = c"
    and "i < j" and "j < length (merge_segments segs wins)"
  shows "seg_end (merge_segments segs wins ! i) < seg_start (merge_segments segs wins ! j)
         \<and> seg_start (merge_segments segs wins ! i) \<le> seg_start (merge_segments segs wins ! j)"
proof -
  from assms(3) have "segs \<noteq> []" by (auto simp: merge_segments_def)
  with assms(1) have inv: "merge_inv (merge_segments segs wins) []"
    by (rule merge_segments_inv)
  then have "sorted_wrt (\<lambda>a b. seg_end a < seg_start b) (merge_segments segs wins)"
    by (simp add: merge_inv_def)
  then have a: "seg_end (merge_segments segs wins ! i) < seg_start (merge_segments segs wins ! j)"
    using assms(2,3) by (simp add: sorted_wrt_iff_nth_less)
  from inv have "sorted (map seg_start (merge_segments segs wins))"
    by (simp add: merge_inv_def)
  then have "seg_start (merge_segments segs wins ! i) \<le> seg_start (merge_segments segs wins ! j)"
    using assms(2,3) by (simp add: sorted_iff_nth_mono)
  with a show ?thesis by simp
qed

lemma toy_cands_merged:
  "map (\<lambda>g. (seg_start g, seg_end g, n_windows g)) (merge_segments toy_cands [])
   = [(10000, 30000, 2), (40000, 50000, 2)]"
  by code_simp

theorem merge_segments_no_overlap_witness:
  "set (map seg_chr toy_cands) = {''chr1''}
   \<and> map (\<lambda>g. (seg_start g, seg_end g, n_windows g)) (merge_segments toy_cands [])
     = [(10000, 30000, 2), (40000, 50000, 2)]
   \<and> seg_end (merge_segments toy_cands [] ! 0) < seg_start (merge_segments toy_cands [] ! 1)
   \<and> seg_start (merge_segments toy_cands [] ! 0) \<le> seg_start (merge_segments toy_cands [] ! 1)"
proof -
  have c: "\<forall>s\<in>set toy_cands. seg_chr s = ''chr1''"
    by (simp add: toy_cands_def toy_cand_def)
  have "length (map (\<lambda>g. (seg_start g, seg_end g, n_windows g)) (merge_segments toy_cands []))
        = 2"
    by (simp only: toy_cands_merged) simp
  then have l: "1 < length (merge_segments toy_cands [])"
    by simp
  have "set (map seg_chr toy_cands) = {''chr1''}"
    by (simp add: toy_cands_def toy_cand_def)
  then show ?thesis
    using merge_segments_no_overlap [OF c _ l, of 0] toy_cands_merged
    by simp
qed

section \<open>Filter enforcement\<close>

lemma finalize_segment_passes:
  "finalize_segment cur wins called ident_sum mn min_windows min_len_bp ga = Some g \<Longrightarrow>
   passes min_windows min_len_bp g"
  by (auto simp: finalize_segment_def passes_def Let_def split: if_splits)

lemma append_seg_passes:
  assumes "list_all (passes mw ml) segments"
  shows "list_all (passes mw ml)
           (append_seg (finalize_segment cur wins called ident_sum mn mw ml ga) segments)"
proof (cases "finalize_segment cur wins called ident_sum mn mw ml ga")
  case None
  with assms show ?thesis by (simp add: append_seg_def)
next
  case (Some g)
  then have "passes mw ml g" by (rule finalize_segment_passes)
  with assms Some show ?thesis by (simp add: append_seg_def)
qed

lemma rle_close_passes:
  assumes "list_all (passes mw ml) (st_segments st)"
  shows "list_all (passes mw ml)
     (st_segments (rle_close (finalize_segment cur wins called ident_sum mn mw ml ga) st))"
  using append_seg_passes [OF assms] by (simp add: rle_close_def)

lemma rle_step_passes:
  assumes "list_all (passes mw ml) (st_segments st)"
  shows "list_all (passes mw ml) (st_segments (rle_step wins ibi min_id max_gap mw ml tmg tol i st))"
proof (cases "st_current st")
  case None
  with assms show ?thesis
    by (simp add: rle_step_def Let_def rle_open_def)
next
  case (Some cur)
  with assms show ?thesis
    by (simp add: rle_step_def Let_def rle_open_def rle_close_passes)
qed

lemma rle_scan_passes:
  "list_all (passes mw ml) (st_segments st) \<Longrightarrow>
   list_all (passes mw ml) (st_segments (rle_scan wins ibi min_id max_gap mw ml tmg tol n i st))"
proof (induction wins ibi min_id max_gap mw ml tmg tol n i st rule: rle_scan.induct)
  case (1 wins ibi min_id max_gap mw ml tmg tol n i st)
  show ?case
  proof (cases "i < n")
    case True
    then show ?thesis
      using 1 by (subst rle_scan.simps) (simp add: rle_step_passes)
  next
    case False
    then show ?thesis
      using 1 by (subst rle_scan.simps) simp
  qed
qed

lemma rle_segments_pass:
  "list_all (passes mw ml) (rle_segments_for_pair track_list wins min_id max_gap mw ml tmg tol)"
proof -
  define st where "st = rle_scan wins (ident_by_idx_of track_list) min_id max_gap mw ml tmg tol
                          (length wins) 0 rle_init"
  have "list_all (passes mw ml) (st_segments st)"
    unfolding st_def by (rule rle_scan_passes) (simp add: rle_init_def)
  then have "list_all (passes mw ml) (rle_finish wins mw ml st)"
    by (auto simp: rle_finish_def intro: append_seg_passes split: option.splits)
  then show ?thesis
    by (simp add: rle_segments_for_pair_def st_def)
qed

lemma seed_extend_one_passes:
  assumes "list_all (passes mw ml) (snd acc)"
  shows "list_all (passes mw ml)
           (snd (seed_extend_one wins ibi ext_thr xdrop reward pen_bad pen_miss mw ml tmg seed acc))"
  using assms
  by (cases seed; cases acc) (simp add: seed_extend_one_def Let_def passes_def)

lemma seed_fold_passes:
  "list_all (passes mw ml) (snd acc) \<Longrightarrow>
   list_all (passes mw ml)
     (snd (fold (seed_extend_one wins ibi ext_thr xdrop reward pen_bad pen_miss mw ml tmg) seeds acc))"
  by (induction seeds arbitrary: acc) (simp_all add: seed_extend_one_passes)

lemma merge_step_passes:
  assumes "out \<noteq> []" "list_all (passes mw ml) out" "passes mw ml s"
  shows "list_all (passes mw ml) (merge_step s out)"
proof -
  have "passes mw ml (last out)"
    using assms(1,2) by (simp add: list_all_iff)
  moreover have "list_all (passes mw ml) (butlast out)"
    using assms(2) by (auto simp: list_all_iff dest: in_set_butlastD)
  ultimately show ?thesis
    using assms(2,3) by (simp add: merge_step_def Let_def passes_def)
qed

lemma merge_fold_passes:
  "out \<noteq> [] \<Longrightarrow> list_all (passes mw ml) out \<Longrightarrow> list_all (passes mw ml) rest \<Longrightarrow>
   list_all (passes mw ml) (fold merge_step rest out)"
proof (induction rest arbitrary: out)
  case Nil
  then show ?case by simp
next
  case (Cons s rest)
  have "merge_step s out \<noteq> []" by (simp add: merge_step_def Let_def)
  moreover have "list_all (passes mw ml) (merge_step s out)"
    using Cons.prems by (intro merge_step_passes) simp_all
  ultimately show ?case
    using Cons.IH Cons.prems(3) by simp
qed

lemma merge_segments_passes:
  assumes "list_all (passes mw ml) segs"
  shows "list_all (passes mw ml) (merge_segments segs wins)"
proof (cases "segs = []")
  case True
  then show ?thesis by (simp add: merge_segments_def)
next
  case False
  define ss where "ss = sort_key merge_key segs"
  have all: "list_all (passes mw ml) ss"
    using assms by (simp add: ss_def list_all_iff)
  have "ss \<noteq> []" using False by (metis ss_def length_sort length_0_conv)
  then obtain h t where ht: "ss = h # t" by (cases ss) auto
  have "list_all (passes mw ml) (fold merge_step t [h])"
    using all by (intro merge_fold_passes) (simp_all add: ht)
  then show ?thesis
    using False by (simp add: merge_segments_def ss_def[symmetric] ht Let_def)
qed

lemma seed_segments_pass:
  "list_all (passes mw ml)
     (seed_extend_segments_for_pair track_list wins seed_thr seed_k ext_thr xdrop reward pen_bad
        pen_miss mw ml tmg)"
  by (simp add: seed_extend_segments_for_pair_def Let_def merge_segments_passes seed_fold_passes)

text \<open>
  Claim C6. Every segment emitted by the selected caller, the run-length caller or the
  seed-and-extend caller after its merge pass, reports at least \<open>min_windows\<close> windows
  and at least \<open>min_length_bp\<close> covered base pairs.
\<close>

theorem filter_enforcement:
  assumes "g \<in> set (call_segments cfg track_list wins)"
  shows "n_windows g \<ge> cfg_min_windows cfg \<and> covered_bp g \<ge> cfg_min_length_bp cfg"
proof -
  have "list_all (passes (cfg_min_windows cfg) (cfg_min_length_bp cfg))
          (call_segments cfg track_list wins)"
    by (cases "cfg_mode cfg") (simp_all add: call_segments_def rle_segments_pass seed_segments_pass)
  with assms show ?thesis
    by (simp add: list_all_iff passes_def)
qed

lemma toy3_seed_segments:
  "call_segments default_config toy3_track toy3_wins =
     [\<lparr> seg_chr = ''chr1'', seg_start = 5000, seg_end = 35000, n_windows = 4,
        covered_bp = 20000,
        mean_ident = fdiv (py_sum [0.9997, 0.9998, 0.9998, 0.9998]) (float_of_int 4),
        min_ident = 9997 / 10000,
        n_gaps = None, frac_called = 1 \<rparr>]"
  by code_simp

lemma toy1_rle_segments:
  "call_segments (default_config\<lparr> cfg_mode := Rle \<rparr>) toy1_track toy1_wins =
     [\<lparr> seg_chr = ''chr1'', seg_start = 5000, seg_end = 35000, n_windows = 6,
        covered_bp = 30000,
        mean_ident =
          fdiv (fadd (fadd (fadd (fadd (fadd 0.9998 0.9998) 0.9998) 0.9997) 0.9998) 0.9998)
            (float_of_int 6),
        min_ident = 9997 / 10000,
        n_gaps = Some 0, frac_called = 1 \<rparr>]"
  by code_simp


theorem filter_enforcement_witness:
  "hd (call_segments default_config toy3_track toy3_wins)
     \<in> set (call_segments default_config toy3_track toy3_wins)
   \<and> cfg_min_windows default_config = 3
   \<and> n_windows (hd (call_segments default_config toy3_track toy3_wins)) = 4
   \<and> cfg_min_windows default_config
       \<le> n_windows (hd (call_segments default_config toy3_track toy3_wins))
   \<and> cfg_min_length_bp default_config
       \<le> covered_bp (hd (call_segments default_config toy3_track toy3_wins))
   \<and> hd (call_segments (default_config\<lparr> cfg_mode := Rle \<rparr>) toy1_track toy1_wins)
       \<in> set (call_segments (default_config\<lparr> cfg_mode := Rle \<rparr>) toy1_track toy1_wins)
   \<and> cfg_min_length_bp (default_config\<lparr> cfg_mode := Rle \<rparr>)
       \<le> covered_bp (hd (call_segments (default_config\<lparr> cfg_mode := Rle \<rparr>)
                              toy1_track toy1_wins))"
proof -
  have s: "hd (call_segments default_config toy3_track toy3_wins)
             \<in> set (call_segments default_config toy3_track toy3_wins)"
    by (simp add: toy3_seed_segments)
  have r: "hd (call_segments (default_config\<lparr> cfg_mode := Rle \<rparr>) toy1_track toy1_wins)
             \<in> set (call_segments (default_config\<lparr> cfg_mode := Rle \<rparr>) toy1_track toy1_wins)"
    by (simp add: toy1_rle_segments)
  have c: "cfg_min_windows default_config = 3"
    by (simp add: default_config_def)
  have n: "n_windows (hd (call_segments default_config toy3_track toy3_wins)) = 4"
    by (simp add: toy3_seed_segments)
  show ?thesis
    using s r c n filter_enforcement [OF s] filter_enforcement [OF r]
    by simp
qed

section \<open>Seed containment\<close>

lemma seed_run_spec:
  "seed_run ibi thr n run j = (run', j') \<Longrightarrow>
   j \<le> j' \<and> run' = run + (j' - j) \<and> (\<forall>k. j \<le> k \<and> k < j' \<longrightarrow> seed_hit ibi thr k) \<and> (j \<le> n \<longrightarrow> j' \<le> n)"
proof (induction ibi thr n run j rule: seed_run.induct)
  case (1 ibi thr n run j)
  show ?case
  proof (cases "j < n \<and> seed_hit ibi thr j")
    case True
    then have "seed_run ibi thr n (run + 1) (j + 1) = (run', j')"
      using "1.prems" by (subst (asm) seed_run.simps) simp
    with True "1.IH" have ih: "j + 1 \<le> j' \<and> run' = run + 1 + (j' - (j + 1))
        \<and> (\<forall>k. j + 1 \<le> k \<and> k < j' \<longrightarrow> seed_hit ibi thr k) \<and> (j + 1 \<le> n \<longrightarrow> j' \<le> n)"
      by simp
    have "\<forall>k. j \<le> k \<and> k < j' \<longrightarrow> seed_hit ibi thr k"
    proof (intro allI impI)
      fix k assume "j \<le> k \<and> k < j'"
      then have "k = j \<or> (j + 1 \<le> k \<and> k < j')" by arith
      with True ih show "seed_hit ibi thr k" by blast
    qed
    with ih True show ?thesis by auto
  next
    case False
    then have "(run', j') = (run, j)"
      using "1.prems" by (subst (asm) seed_run.simps) auto
    then show ?thesis by auto
  qed
qed

lemma find_seeds_done: "\<not> i < n \<Longrightarrow> find_seeds ibi thr sk n i seeds = seeds"
  by (subst find_seeds.simps) (simp only: if_False)

lemma find_seeds_miss:
  "i < n \<Longrightarrow> \<not> seed_hit ibi thr i \<Longrightarrow>
   find_seeds ibi thr sk n i seeds = find_seeds ibi thr sk n (Suc i) seeds"
  by (subst find_seeds.simps) (simp only: if_True if_False)

lemma find_seeds_hit:
  "i < n \<Longrightarrow> seed_hit ibi thr i \<Longrightarrow> seed_run ibi thr n 0 i = (run, j) \<Longrightarrow>
   find_seeds ibi thr sk n i seeds =
     find_seeds ibi thr sk n j (if sk \<le> int run then seeds @ [(i, j - 1)] else seeds)"
  by (subst find_seeds.simps) (simp only: if_True fst_conv snd_conv)

lemma find_seeds_spec:
  assumes "\<forall>p\<in>set seeds. snd p < n \<and> is_seed_run ibi thr sk (fst p) (snd p)"
  shows "\<forall>p\<in>set (find_seeds ibi thr sk n i seeds).
           snd p < n \<and> is_seed_run ibi thr sk (fst p) (snd p)"
  using assms
proof (induction ibi thr sk n i seeds rule: find_seeds.induct)
  case (1 ibi thr sk n i seeds)
  show ?case
  proof (cases "i < n")
    case False
    then show ?thesis
      using "1.prems" by (simp add: find_seeds_done)
  next
    case True
    show ?thesis
    proof (cases "seed_hit ibi thr i")
      case False
      have "\<forall>p\<in>set (find_seeds ibi thr sk n (Suc i) seeds).
              snd p < n \<and> is_seed_run ibi thr sk (fst p) (snd p)"
        using True False "1.prems" by (rule "1.IH"(2))
      then show ?thesis
        using True False by (simp add: find_seeds_miss)
    next
      case hit: True
      obtain run j where rj: "seed_run ibi thr n 0 i = (run, j)"
        by (cases "seed_run ibi thr n 0 i")
      from seed_run_spec [OF rj] True
      have sp: "i \<le> j" "run = j - i" "\<forall>k. i \<le> k \<and> k < j \<longrightarrow> seed_hit ibi thr k" "j \<le> n"
        by auto
      have adv: "i < j"
        using seed_run_advances [OF True hit, of 0] rj by simp
      define seeds' where "seeds' = (if sk \<le> int run then seeds @ [(i, j - 1)] else seeds)"
      have hits: "\<forall>k\<in>{i..j - 1}. seed_hit ibi thr k"
        using sp(3) adv by auto
      have new: "sk \<le> int run \<Longrightarrow> j - 1 < n \<and> is_seed_run ibi thr sk i (j - 1)"
      proof -
        assume k: "sk \<le> int run"
        have "j - 1 < n" "i \<le> j - 1" "j - 1 - i + 1 = j - i"
          using sp(4) adv by arith+
        then show ?thesis
          using k sp(2) hits by (simp add: is_seed_run_def)
      qed
      have pre: "\<forall>p\<in>set seeds'. snd p < n \<and> is_seed_run ibi thr sk (fst p) (snd p)"
        using "1.prems" new by (simp add: seeds'_def)
      have "\<forall>p\<in>set (find_seeds ibi thr sk n (snd (seed_run ibi thr n 0 i))
                        (if sk \<le> int (fst (seed_run ibi thr n 0 i))
                         then seeds @ [(i, snd (seed_run ibi thr n 0 i) - 1)] else seeds)).
              snd p < n \<and> is_seed_run ibi thr sk (fst p) (snd p)"
        using True hit
      proof (rule "1.IH"(1))
        show "\<forall>p\<in>set (if sk \<le> int (fst (seed_run ibi thr n 0 i))
                         then seeds @ [(i, snd (seed_run ibi thr n 0 i) - 1)] else seeds).
                snd p < n \<and> is_seed_run ibi thr sk (fst p) (snd p)"
          using pre by (simp only: rj fst_conv snd_conv seeds'_def)
      qed
      then show ?thesis
        using find_seeds_hit [OF True hit rj, of sk seeds] by (simp only: rj fst_conv snd_conv)
    qed
  qed
qed

lemma extend_body_fst:
  "extend_body ibi ext_thr xdrop reward pen_bad pen_miss tmg k v = Go v1
   \<or> extend_body ibi ext_thr xdrop reward pen_bad pen_miss tmg k v = Stop v1 \<Longrightarrow>
   fst v1 = fst v \<or> fst v1 = k"
  by (cases v) (auto simp: extend_body_def Let_def split: if_splits)

lemma extend_body_moves:
  "body_moves (extend_body ibi ext_thr xdrop reward pen_bad pen_miss tmg)"
  unfolding body_moves_def using extend_body_fst by blast

lemma body_movesD:
  "body_moves body \<Longrightarrow> body k v = Go v1 \<or> body k v = Stop v1 \<Longrightarrow> fst v1 = fst v \<or> fst v1 = k"
  unfolding body_moves_def by blast

lemma extend_left_le:
  "body_moves body \<Longrightarrow> m \<le> fst v \<Longrightarrow> extend_left body m v \<le> fst v"
proof (induction m arbitrary: v)
  case 0
  then show ?case by simp
next
  case (Suc k)
  show ?case
  proof (cases "body k v")
    case Skip
    with Suc show ?thesis by simp
  next
    case (Stop v1)
    then have "fst v1 = fst v \<or> fst v1 = k"
      using body_movesD [OF Suc.prems(1), of k v v1] by simp
    with Stop Suc.prems show ?thesis by auto
  next
    case (Go v1)
    then have m: "fst v1 = fst v \<or> fst v1 = k"
      using body_movesD [OF Suc.prems(1), of k v v1] by simp
    then have "k \<le> fst v1" using Suc.prems by auto
    then have "extend_left body k v1 \<le> fst v1" using Suc.IH Suc.prems(1) by blast
    with m Go Suc.prems show ?thesis by auto
  qed
qed

lemma extend_right_bounds:
  "body_moves body \<Longrightarrow> fst v \<le> k \<Longrightarrow> fst v < n \<Longrightarrow>
   fst v \<le> extend_right body n k v \<and> extend_right body n k v < n"
proof (induction body n k v rule: extend_right.induct)
  case (1 body n k v)
  show ?case
  proof (cases "k < n")
    case False
    then show ?thesis
      using "1.prems" by (subst extend_right.simps, subst extend_right.simps) simp
  next
    case True
    show ?thesis
    proof (cases "body k v")
      case Skip
      then have "extend_right body n k v = extend_right body n (Suc k) v"
        using True by (subst extend_right.simps) simp
      moreover have "fst v \<le> extend_right body n (Suc k) v \<and> extend_right body n (Suc k) v < n"
        using "1.IH"(1) [OF True Skip] "1.prems" by simp
      ultimately show ?thesis by simp
    next
      case (Stop v1)
      then have "extend_right body n k v = fst v1"
        using True by (subst extend_right.simps) simp
      moreover have "fst v1 = fst v \<or> fst v1 = k"
        using Stop body_movesD [OF "1.prems"(1), of k v v1] by simp
      ultimately show ?thesis
        using True "1.prems" by auto
    next
      case (Go v1)
      then have eq: "extend_right body n k v = extend_right body n (Suc k) v1"
        using True by (subst extend_right.simps) simp
      have m: "fst v1 = fst v \<or> fst v1 = k"
        using Go body_movesD [OF "1.prems"(1), of k v v1] by simp
      then have "fst v1 \<le> Suc k" "fst v1 < n" "fst v \<le> fst v1"
        using True "1.prems" by auto
      then have "fst v1 \<le> extend_right body n (Suc k) v1 \<and> extend_right body n (Suc k) v1 < n"
        using "1.IH"(2) [OF True Go] "1.prems"(1) by simp
      with eq \<open>fst v \<le> fst v1\<close> show ?thesis by simp
    qed
  qed
qed

lemma seed_extend_one_cand:
  assumes seed: "snd seed < length wins" "is_seed_run ibi thr sk (fst seed) (snd seed)"
    and acc: "\<forall>g\<in>set (snd acc). \<exists>l r. is_candidate wins ibi thr sk l r
                \<and> g = summarize_segment l r wins ibi"
  shows "\<forall>g\<in>set (snd (seed_extend_one wins ibi ext_thr xdrop reward pen_bad pen_miss mw ml tmg
                          seed acc)).
           \<exists>l r. is_candidate wins ibi thr sk l r \<and> g = summarize_segment l r wins ibi"
proof -
  obtain s e where se: "seed = (s, e)" by (cases seed)
  obtain used segments where a: "acc = (used, segments)" by (cases acc)
  define body where "body = extend_body ibi ext_thr xdrop reward pen_bad pen_miss tmg"
  define bl where "bl = extend_left body s (s, 0, 0)"
  define br where "br = extend_right body (length wins) (Suc e) (e, 0, 0)"
  have mv: "body_moves body" unfolding body_def by (rule extend_body_moves)
  have "bl \<le> s"
    using extend_left_le [OF mv, of s "(s, 0, 0)"] by (simp add: bl_def)
  moreover have "e \<le> br \<and> br < length wins"
    using extend_right_bounds [OF mv, of "(e, 0, 0)" "Suc e" "length wins"] seed(1)
    by (simp add: br_def se)
  ultimately have "is_candidate wins ibi thr sk bl br"
    using seed(2) by (auto simp: is_candidate_def se)
  then have new: "\<exists>l r. is_candidate wins ibi thr sk l r
      \<and> summarize_segment bl br wins ibi = summarize_segment l r wins ibi"
    by blast
  show ?thesis
    using acc new
    by (simp add: seed_extend_one_def se a Let_def body_def [symmetric] bl_def [symmetric]
          br_def [symmetric])
qed

lemma seed_fold_cand:
  "\<forall>p\<in>set seeds. snd p < length wins \<and> is_seed_run ibi thr sk (fst p) (snd p) \<Longrightarrow>
   \<forall>g\<in>set (snd acc). \<exists>l r. is_candidate wins ibi thr sk l r
       \<and> g = summarize_segment l r wins ibi \<Longrightarrow>
   \<forall>g\<in>set (snd (fold (seed_extend_one wins ibi ext_thr xdrop reward pen_bad pen_miss mw ml tmg)
                     seeds acc)).
     \<exists>l r. is_candidate wins ibi thr sk l r \<and> g = summarize_segment l r wins ibi"
proof (induction seeds arbitrary: acc)
  case Nil
  then show ?case by simp
next
  case (Cons p seeds)
  have "\<forall>g\<in>set (snd (seed_extend_one wins ibi ext_thr xdrop reward pen_bad pen_miss mw ml tmg
                         p acc)).
          \<exists>l r. is_candidate wins ibi thr sk l r \<and> g = summarize_segment l r wins ibi"
    using Cons.prems by (intro seed_extend_one_cand) simp_all
  then show ?case
    using Cons.IH Cons.prems(1) by simp
qed

lemma sorted_chr_start:
  "sorted (map merge_key xs) \<Longrightarrow> sorted (map chr_start xs)"
  by (induction xs) (auto simp: merge_key_def chr_start_def less_eq_prod_def)

lemma widened_refl: "widened g g"
proof -
  have "seg_end g \<le> seg_end g \<and> g = g\<lparr> seg_end := seg_end g \<rparr>" by simp
  then show ?thesis unfolding widened_def by blast
qed

lemma widened_more:
  assumes "widened g0 l" "seg_end l \<le> x"
  shows "widened g0 (l\<lparr> seg_end := x \<rparr>)"
proof -
  from assms(1) obtain e where e: "seg_end g0 \<le> e" "l = g0\<lparr> seg_end := e \<rparr>"
    unfolding widened_def by blast
  then have "seg_end g0 \<le> x \<and> l\<lparr> seg_end := x \<rparr> = g0\<lparr> seg_end := x \<rparr>"
    using assms(2) by simp
  then show ?thesis unfolding widened_def by blast
qed

lemma widened_fields:
  assumes "widened g0 g"
  shows "seg_chr g = seg_chr g0" "seg_start g = seg_start g0" "seg_end g0 \<le> seg_end g"
    "n_windows g = n_windows g0" "covered_bp g = covered_bp g0"
    "mean_ident g = mean_ident g0" "min_ident g = min_ident g0"
    "frac_called g = frac_called g0"
proof -
  from assms obtain e where e: "seg_end g0 \<le> e" "g = g0\<lparr> seg_end := e \<rparr>"
    unfolding widened_def by blast
  then show "seg_chr g = seg_chr g0" "seg_start g = seg_start g0" "seg_end g0 \<le> seg_end g"
    "n_windows g = n_windows g0" "covered_bp g = covered_bp g0"
    "mean_ident g = mean_ident g0" "min_ident g = min_ident g0"
    "frac_called g = frac_called g0"
    by simp_all
qed

lemma widen_inv_step:
  assumes inv: "widen_inv segs out (s # rest)"
  shows "widen_inv segs (merge_step s out) rest"
proof -
  from inv have ne: "out \<noteq> []" by (simp add: widen_inv_def)
  define l where "l = last out"
  define bs where "bs = butlast out"
  have out: "out = bs @ [l]" using ne by (simp add: l_def bs_def)
  from inv have srt: "sorted (map chr_start (bs @ l # s # rest))"
    by (simp add: widen_inv_def out)
  from inv have sub: "s \<in> set segs" "set rest \<subseteq> set segs"
    by (simp_all add: widen_inv_def)
  from inv have wd: "\<forall>g\<in>set bs. \<exists>g0\<in>set segs. widened g0 g" "\<exists>g0\<in>set segs. widened g0 l"
    by (simp_all add: widen_inv_def out)
  have le: "chr_start l \<le> chr_start s"
    using srt by (simp add: sorted_append)
  show ?thesis
  proof (cases "seg_chr s = seg_chr l \<and> seg_start s \<le> seg_end l")
    case True
    then have ls: "seg_start l \<le> seg_start s"
      using le by (auto simp: chr_start_def less_eq_prod_def)
    define l' where "l' = l\<lparr> seg_start := min (seg_start l) (seg_start s),
                              seg_end := max (seg_end l) (seg_end s) \<rparr>"
    have l'eq: "l' = l\<lparr> seg_end := max (seg_end l) (seg_end s) \<rparr>"
      using ls by (simp add: l'_def min_def)
    have ms: "merge_step s out = bs @ [l']"
      using True by (simp add: merge_step_def l'_def out Let_def)
    have cs: "chr_start l' = chr_start l"
      by (simp add: l'eq chr_start_def)
    have "sorted (map chr_start (bs @ l' # rest))"
      using srt cs by (auto simp: sorted_append)
    moreover have "\<exists>g0\<in>set segs. widened g0 l'"
    proof -
      from wd(2) obtain g0 where g0: "g0 \<in> set segs" "widened g0 l" by blast
      then have "widened g0 l'"
        unfolding l'eq by (intro widened_more) simp_all
      with g0(1) show ?thesis by blast
    qed
    ultimately show ?thesis
      using wd(1) sub(2) by (simp add: widen_inv_def ms)
  next
    case False
    then have ms: "merge_step s out = bs @ [l, s]"
      by (auto simp: merge_step_def out Let_def)
    have "\<exists>g0\<in>set segs. widened g0 s"
      using sub(1) widened_refl by blast
    then show ?thesis
      using srt wd sub(2) by (simp add: widen_inv_def ms)
  qed
qed

lemma widen_inv_fold:
  "widen_inv segs out rest \<Longrightarrow> widen_inv segs (fold merge_step rest out) []"
  by (induction rest arbitrary: out) (simp_all add: widen_inv_step)

lemma merge_segments_widened:
  assumes "g \<in> set (merge_segments segs wins)"
  shows "\<exists>g0\<in>set segs. widened g0 g"
proof -
  from assms have ne: "segs \<noteq> []" by (auto simp: merge_segments_def)
  define ss where "ss = sort_key merge_key segs"
  have "ss \<noteq> []" using ne by (metis ss_def length_sort length_0_conv)
  then obtain h t where ht: "ss = h # t" by (cases ss) auto
  have set: "set ss = set segs" by (simp add: ss_def)
  have "sorted (map merge_key ss)" by (simp add: ss_def)
  then have "sorted (map chr_start (h # t))"
    using sorted_chr_start ht by blast
  moreover have "h \<in> set segs" "set t \<subseteq> set segs"
    using set ht by auto
  ultimately have "widen_inv segs [h] t"
    using widened_refl by (auto simp: widen_inv_def)
  then have "widen_inv segs (fold merge_step t [h]) []"
    by (rule widen_inv_fold)
  moreover have "merge_segments segs wins = fold merge_step t [h]"
    using ne by (simp add: merge_segments_def ss_def [symmetric] ht Let_def)
  ultimately show ?thesis
    using assms by (simp add: widen_inv_def)
qed

text \<open>
  Claim C5. Every segment emitted by the seed-and-extend caller comes from an index
  range \<open>l..r\<close> of the window list that contains a full seed run \<open>s..e\<close>: the segment
  starts at the start of window \<open>l\<close>, reports the window count and the covered base
  pairs of \<open>l..r\<close>, and ends at or after the end of window \<open>r\<close> (the merge pass may
  only move the end to the right).
\<close>

theorem seed_containment:
  assumes "g \<in> set (seed_extend_segments_for_pair track_list wins seed_thr seed_k ext_thr xdrop
                       reward pen_bad pen_miss min_windows min_len_bp treat_missing_as_gap)"
  shows "\<exists>l r s e. l \<le> s \<and> e \<le> r \<and> r < length wins
           \<and> is_seed_run (ident_by_idx_of track_list) seed_thr seed_k s e
           \<and> seg_start g = win_start (wins ! l) \<and> win_end (wins ! r) \<le> seg_end g
           \<and> n_windows g = int r - int l + 1 \<and> covered_bp g = slice_length_sum wins l r"
proof -
  define ibi where "ibi = ident_by_idx_of track_list"
  define seeds where "seeds = find_seeds ibi seed_thr seed_k (length wins) 0 []"
  define segments where "segments =
    snd (fold (seed_extend_one wins ibi ext_thr xdrop reward pen_bad pen_miss min_windows
                 min_len_bp treat_missing_as_gap) seeds (replicate (length wins) False, []))"
  have g: "g \<in> set (merge_segments segments wins)"
    using assms
    by (simp add: seed_extend_segments_for_pair_def Let_def ibi_def seeds_def segments_def)
  have "\<forall>p\<in>set seeds. snd p < length wins \<and> is_seed_run ibi seed_thr seed_k (fst p) (snd p)"
    unfolding seeds_def by (rule find_seeds_spec) simp
  then have cand: "\<forall>g\<in>set segments. \<exists>l r. is_candidate wins ibi seed_thr seed_k l r
                     \<and> g = summarize_segment l r wins ibi"
    unfolding segments_def by (rule seed_fold_cand) simp
  from merge_segments_widened [OF g] obtain g0 where g0: "g0 \<in> set segments" "widened g0 g"
    by blast
  with cand obtain l r where lr: "is_candidate wins ibi seed_thr seed_k l r"
      "g0 = summarize_segment l r wins ibi"
    by blast
  from lr(1) obtain s e where se: "l \<le> s" "e \<le> r" "r < length wins"
      "is_seed_run ibi seed_thr seed_k s e"
    by (auto simp: is_candidate_def)
  have "seg_start g = win_start (wins ! l)" "win_end (wins ! r) \<le> seg_end g"
       "n_windows g = int r - int l + 1" "covered_bp g = slice_length_sum wins l r"
    using widened_fields [OF g0(2)] lr(2) by (simp_all add: summarize_segment_def Let_def)
  with se show ?thesis
    unfolding ibi_def by blast
qed

lemma toy3_seed_direct:
  "seed_extend_segments_for_pair toy3_track toy3_wins 0.9998 2 0.9995 2 1 1 1 3 5000 False =
     [\<lparr> seg_chr = ''chr1'', seg_start = 5000, seg_end = 35000, n_windows = 4,
        covered_bp = 20000,
        mean_ident = fdiv (py_sum [0.9997, 0.9998, 0.9998, 0.9998]) (float_of_int 4),
        min_ident = 9997 / 10000,
        n_gaps = None, frac_called = 1 \<rparr>]"
  by code_simp

theorem seed_containment_witness:
  "hd (seed_extend_segments_for_pair toy3_track toy3_wins 0.9998 2 0.9995 2 1 1 1 3 5000 False)
     \<in> set (seed_extend_segments_for_pair toy3_track toy3_wins 0.9998 2 0.9995 2 1 1 1 3 5000
               False)
   \<and> (\<exists>l r s e. l \<le> s \<and> e \<le> r \<and> r < length toy3_wins
         \<and> is_seed_run (ident_by_idx_of toy3_track) 0.9998 2 s e
         \<and> seg_start (hd (seed_extend_segments_for_pair toy3_track toy3_wins 0.9998 2 0.9995 2
                             1 1 1 3 5000 False)) = win_start (toy3_wins ! l)
         \<and> win_end (toy3_wins ! r)
             \<le> seg_end (hd (seed_extend_segments_for_pair toy3_track toy3_wins 0.9998 2 0.9995
                                2 1 1 1 3 5000 False))
         \<and> n_windows (hd (seed_extend_segments_for_pair toy3_track toy3_wins 0.9998 2 0.9995 2
                             1 1 1 3 5000 False)) = int r - int l + 1
         \<and> covered_bp (hd (seed_extend_segments_for_pair toy3_track toy3_wins 0.9998 2 0.9995 2
                              1 1 1 3 5000 False)) = slice_length_sum toy3_wins l r)"
proof -
  have h: "hd (seed_extend_segments_for_pair toy3_track toy3_wins 0.9998 2 0.9995 2 1 1 1 3 5000
                 False)
             \<in> set (seed_extend_segments_for_pair toy3_track toy3_wins 0.9998 2 0.9995 2 1 1 1 3
                       5000 False)"
    unfolding toy3_seed_direct by simp
  show ?thesis
    using h seed_containment [OF h] by simp
qed

section \<open>The scan step, case by case\<close>

lemma rle_step_idle_good:
  "st_current st = None \<Longrightarrow> ibi i = Some x \<Longrightarrow> qualifies min_id tol (Some x) \<Longrightarrow>
   rle_step wins ibi min_id max_gap mw ml tmg tol i st = rle_open i x st"
  by (simp add: rle_step_def)

lemma rle_step_idle_other:
  "st_current st = None \<Longrightarrow> \<not> qualifies min_id tol (ibi i) \<Longrightarrow>
   rle_step wins ibi min_id max_gap mw ml tmg tol i st = st"
  by (simp add: rle_step_def Let_def)

lemma rle_step_run_good:
  "st_current st = Some (s, e) \<Longrightarrow> ibi i = Some x \<Longrightarrow> qualifies min_id tol (Some x) \<Longrightarrow>
   rle_step wins ibi min_id max_gap mw ml tmg tol i st =
     (if st_gaps st > max_gap
      then rle_close (finalize_segment (s, i - 1) wins (st_called st + 1)
                        (fadd (st_ident_sum st) x) (min x (st_min_ident st)) mw ml max_gap) st
      else st\<lparr> st_current := Some (s, i), st_called := st_called st + 1,
               st_ident_sum := fadd (st_ident_sum st) x,
               st_min_ident := min x (st_min_ident st) \<rparr>)"
  by (simp add: rle_step_def Let_def rle_close_def min_def)

lemma rle_step_run_gap:
  "st_current st = Some (s, e) \<Longrightarrow> ibi i = None \<Longrightarrow> tmg \<Longrightarrow>
   rle_step wins ibi min_id max_gap mw ml tmg tol i st =
     (if st_gaps st + 1 > max_gap
      then rle_close (finalize_segment (s, i - 1) wins (st_called st) (st_ident_sum st)
                        (st_min_ident st) mw ml max_gap) st
      else st\<lparr> st_current := Some (s, i), st_gaps := st_gaps st + 1 \<rparr>)"
  by (simp add: rle_step_def Let_def rle_close_def)

lemma rle_step_run_break:
  "st_current st = Some (s, e) \<Longrightarrow> \<not> qualifies min_id tol (ibi i) \<Longrightarrow>
   ibi i \<noteq> None \<or> \<not> tmg \<Longrightarrow>
   rle_step wins ibi min_id max_gap mw ml tmg tol i st =
     rle_close (finalize_segment (s, e) wins (st_called st) (st_ident_sum st)
                  (st_min_ident st) mw ml (st_gaps st)) st"
  by (auto simp: rle_step_def Let_def)

section \<open>Segment statistics\<close>

lemma finalize_segment_stats:
  assumes "finalize_segment (s, e) wins called ident_sum mn mw ml ga = Some g"
    and "1 \<le> called" "called \<le> int e - int s + 1"
  shows "stats_ok g"
proof -
  have nw: "0 < int e - int s + 1" using assms(2,3) by simp
  have g: "frac_called g = int_truediv called (int e - int s + 1)"
    using assms(1) nw by (auto simp: finalize_segment_def Let_def split: if_splits)
  have "0 < called" using assms(2) by simp
  then have "0 < int_truediv called (int e - int s + 1)
             \<and> int_truediv called (int e - int s + 1) \<le> 1"
    using assms(3) by (rule int_truediv_unit)
  then show ?thesis
    by (simp add: stats_ok_def g)
qed

lemma append_seg_stats:
  assumes "list_all stats_ok segments"
    and "\<And>g. seg = Some g \<Longrightarrow> stats_ok g"
  shows "list_all stats_ok (append_seg seg segments)"
  using assms by (cases seg) (simp_all add: append_seg_def)

lemma run_inv_step:
  assumes mg: "0 \<le> max_gap"
    and inv: "run_inv max_gap i st"
    and ok: "list_all stats_ok (st_segments st)"
  shows "run_inv max_gap (Suc i) (rle_step wins ibi min_id max_gap mw ml tmg tol i st)
         \<and> list_all stats_ok (st_segments (rle_step wins ibi min_id max_gap mw ml tmg tol i st))"
proof (cases "st_current st")
  case None
  show ?thesis
  proof (cases "qualifies min_id tol (ibi i)")
    case True
    then obtain x where x: "ibi i = Some x" by (cases "ibi i") (simp_all add: qualifies_def)
    with True have "rle_step wins ibi min_id max_gap mw ml tmg tol i st = rle_open i x st"
      using None by (simp add: rle_step_idle_good)
    then show ?thesis
      using ok mg by (simp add: run_inv_def rle_open_def)
  next
    case False
    then have "rle_step wins ibi min_id max_gap mw ml tmg tol i st = st"
      using None by (simp add: rle_step_idle_other)
    then show ?thesis
      using ok None by (simp add: run_inv_def)
  qed
next
  case (Some cur)
  obtain s e where cur: "cur = (s, e)" by (cases cur)
  from inv Some cur have r: "s \<le> e" "Suc e = i" "1 \<le> st_called st" "0 \<le> st_gaps st"
      "st_gaps st \<le> max_gap" "st_called st + st_gaps st = int e - int s + 1"
    by (simp_all add: run_inv_def)
  have cl: "st_called st \<le> int e - int s + 1" using r(4,6) by simp
  have fin: "\<And>ga g. finalize_segment (s, e) wins (st_called st) (st_ident_sum st)
                (st_min_ident st) mw ml ga = Some g \<Longrightarrow> stats_ok g"
    using r(3) cl by (rule finalize_segment_stats [rotated])
  have closed: "\<And>ga. run_inv max_gap (Suc i)
        (rle_close (finalize_segment (s, e) wins (st_called st) (st_ident_sum st)
                      (st_min_ident st) mw ml ga) st)
      \<and> list_all stats_ok (st_segments
        (rle_close (finalize_segment (s, e) wins (st_called st) (st_ident_sum st)
                      (st_min_ident st) mw ml ga) st))"
    using ok fin by (simp add: run_inv_def rle_close_def append_seg_stats)
  have ie: "i - Suc 0 = e" using r(2) by auto
  show ?thesis
  proof (cases "ibi i")
    case None
    show ?thesis
    proof (cases tmg)
      case True
      have st: "rle_step wins ibi min_id max_gap mw ml tmg tol i st =
          (if st_gaps st + 1 > max_gap
           then rle_close (finalize_segment (s, e) wins (st_called st) (st_ident_sum st)
                             (st_min_ident st) mw ml max_gap) st
           else st\<lparr> st_current := Some (s, i), st_gaps := st_gaps st + 1 \<rparr>)"
        using Some cur None True by (simp add: rle_step_run_gap ie)
      show ?thesis
      proof (cases "st_gaps st + 1 > max_gap")
        case True
        then show ?thesis using st closed by simp
      next
        case False
        then show ?thesis
          using st ok r by (simp add: run_inv_def)
      qed
    next
      case False
      have "rle_step wins ibi min_id max_gap mw ml tmg tol i st =
          rle_close (finalize_segment (s, e) wins (st_called st) (st_ident_sum st)
                       (st_min_ident st) mw ml (st_gaps st)) st"
        using Some cur None False by (intro rle_step_run_break) (simp_all add: qualifies_def)
      then show ?thesis using closed by simp
    qed
  next
    case (Some x)
    show ?thesis
    proof (cases "qualifies min_id tol (Some x)")
      case True
      have ng: "\<not> st_gaps st > max_gap" using r(5) by simp
      have st: "rle_step wins ibi min_id max_gap mw ml tmg tol i st =
          st\<lparr> st_current := Some (s, i), st_called := st_called st + 1,
               st_ident_sum := fadd (st_ident_sum st) x,
               st_min_ident := min x (st_min_ident st) \<rparr>"
        using \<open>st_current st = Some cur\<close> cur Some True ng by (simp add: rle_step_run_good)
      show ?thesis
        using st ok r by (simp add: run_inv_def)
    next
      case False
      have "rle_step wins ibi min_id max_gap mw ml tmg tol i st =
          rle_close (finalize_segment (s, e) wins (st_called st) (st_ident_sum st)
                       (st_min_ident st) mw ml (st_gaps st)) st"
        using \<open>st_current st = Some cur\<close> cur Some False by (intro rle_step_run_break) simp_all
      then show ?thesis using closed by simp
    qed
  qed
qed

lemma run_inv_scan:
  assumes "0 \<le> max_gap"
  shows "run_inv max_gap i st \<Longrightarrow> list_all stats_ok (st_segments st) \<Longrightarrow>
     (\<exists>j. run_inv max_gap j (rle_scan wins ibi min_id max_gap mw ml tmg tol n i st))
     \<and> list_all stats_ok (st_segments (rle_scan wins ibi min_id max_gap mw ml tmg tol n i st))"
  using assms
proof (induction wins ibi min_id max_gap mw ml tmg tol n i st rule: rle_scan.induct)
  case (1 wins ibi min_id max_gap mw ml tmg tol n i st)
  show ?case
  proof (cases "i < n")
    case True
    have step: "run_inv max_gap (Suc i) (rle_step wins ibi min_id max_gap mw ml tmg tol i st)
       \<and> list_all stats_ok (st_segments (rle_step wins ibi min_id max_gap mw ml tmg tol i st))"
      using "1.prems"(3,1,2) by (rule run_inv_step)
    have "rle_scan wins ibi min_id max_gap mw ml tmg tol n i st =
          rle_scan wins ibi min_id max_gap mw ml tmg tol n (Suc i)
            (rle_step wins ibi min_id max_gap mw ml tmg tol i st)"
      using True by (subst rle_scan.simps) simp
    then show ?thesis
      using "1.IH" [OF True] step "1.prems"(3) by simp
  next
    case False
    then have "rle_scan wins ibi min_id max_gap mw ml tmg tol n i st = st"
      by (subst rle_scan.simps) simp
    then show ?thesis
      using "1.prems" by auto
  qed
qed

lemma rle_segments_stats:
  assumes "0 \<le> max_gap"
  shows "list_all stats_ok (rle_segments_for_pair track_list wins min_id max_gap mw ml tmg tol)"
proof -
  define st where "st = rle_scan wins (ident_by_idx_of track_list) min_id max_gap mw ml tmg tol
                          (length wins) 0 rle_init"
  have "run_inv max_gap 0 rle_init" "list_all stats_ok (st_segments rle_init)"
    by (simp_all add: run_inv_def rle_init_def)
  with assms have "(\<exists>j. run_inv max_gap j st) \<and> list_all stats_ok (st_segments st)"
    unfolding st_def by (intro run_inv_scan)
  then obtain j where inv: "run_inv max_gap j st" and ok: "list_all stats_ok (st_segments st)"
    by blast
  have "list_all stats_ok (rle_finish wins mw ml st)"
  proof (cases "st_current st")
    case None
    with ok show ?thesis by (simp add: rle_finish_def)
  next
    case (Some cur)
    obtain s e where cur: "cur = (s, e)" by (cases cur)
    from inv Some cur have r: "1 \<le> st_called st" "0 \<le> st_gaps st"
        "st_called st + st_gaps st = int e - int s + 1"
      by (simp_all add: run_inv_def)
    have cl: "st_called st \<le> int e - int s + 1" using r(2,3) by simp
    have "\<And>g. finalize_segment (s, e) wins (st_called st) (st_ident_sum st)
                (st_min_ident st) mw ml (st_gaps st) = Some g \<Longrightarrow> stats_ok g"
      using r(1) cl by (rule finalize_segment_stats [rotated])
    then show ?thesis
      using ok Some cur by (simp add: rle_finish_def append_seg_stats)
  qed
  then show ?thesis
    by (simp add: rle_segments_for_pair_def st_def)
qed

lemma summarize_segment_stats:
  assumes "is_candidate wins ibi thr sk l r"
  shows "stats_ok (summarize_segment l r wins ibi)"
proof -
  define cs where "cs = called_idents ibi l r"
  from assms obtain s e where se: "l \<le> s" "e \<le> r" "is_seed_run ibi thr sk s e"
    by (auto simp: is_candidate_def)
  then have "s \<le> e" "seed_hit ibi thr s"
    by (auto simp: is_seed_run_def)
  then obtain x where x: "ibi s = Some x"
    by (cases "ibi s") (simp_all add: seed_hit_def)
  have lr: "l \<le> r" using se \<open>s \<le> e\<close> by simp
  have "s \<in> set [l..<Suc r]"
    using se \<open>s \<le> e\<close> by (simp del: upt_Suc)
  then have "s \<in> set (filter (\<lambda>k. ibi k \<noteq> None) [l..<Suc r])"
    using x by (simp del: upt_Suc)
  then have "(the \<circ> ibi) s \<in> set cs"
    unfolding cs_def called_idents_def List.map_filter_def set_map by (rule imageI)
  then have ne: "cs \<noteq> []" by auto
  have "length cs = length (filter (\<lambda>k. ibi k \<noteq> None) [l..<Suc r])"
    unfolding cs_def called_idents_def List.map_filter_def by (simp only: length_map)
  also have "\<dots> \<le> length [l..<Suc r]"
    by (rule length_filter_le)
  also have "\<dots> = Suc r - l"
    by (simp only: length_upt)
  finally have len: "length cs \<le> Suc r - l" .
  have "0 < int (length cs)" using ne by simp
  moreover have "int (length cs) \<le> int r - int l + 1" using len lr by simp
  ultimately have f: "0 < int_truediv (int (length cs)) (int r - int l + 1)
      \<and> int_truediv (int (length cs)) (int r - int l + 1) \<le> 1"
    by (rule int_truediv_unit)
  have "0 < int r - int l + 1" using lr by simp
  then show ?thesis
    using f by (simp add: stats_ok_def summarize_segment_def Let_def cs_def [symmetric])
qed

lemma seed_segments_stats:
  assumes "g \<in> set (seed_extend_segments_for_pair track_list wins seed_thr seed_k ext_thr xdrop
                       reward pen_bad pen_miss min_windows min_len_bp treat_missing_as_gap)"
  shows "stats_ok g"
proof -
  define ibi where "ibi = ident_by_idx_of track_list"
  define seeds where "seeds = find_seeds ibi seed_thr seed_k (length wins) 0 []"
  define segments where "segments =
    snd (fold (seed_extend_one wins ibi ext_thr xdrop reward pen_bad pen_miss min_windows
                 min_len_bp treat_missing_as_gap) seeds (replicate (length wins) False, []))"
  have g: "g \<in> set (merge_segments segments wins)"
    using assms
    by (simp add: seed_extend_segments_for_pair_def Let_def ibi_def seeds_def segments_def)
  have "\<forall>p\<in>set seeds. snd p < length wins \<and> is_seed_run ibi seed_thr seed_k (fst p) (snd p)"
    unfolding seeds_def by (rule find_seeds_spec) simp
  then have cand: "\<forall>g\<in>set segments. \<exists>l r. is_candidate wins ibi seed_thr seed_k l r
                     \<and> g = summarize_segment l r wins ibi"
    unfolding segments_def by (rule seed_fold_cand) simp
  from merge_segments_widened [OF g] obtain g0 where g0: "g0 \<in> set segments" "widened g0 g"
    by blast
  with cand obtain l r where lr: "is_candidate wins ibi seed_thr seed_k l r"
      "g0 = summarize_segment l r wins ibi"
    by blast
  have "stats_ok g0"
    unfolding lr(2) using lr(1) by (rule summarize_segment_stats)
  then show ?thesis
    using widened_fields [OF g0(2)] by (simp add: stats_ok_def)
qed

text \<open>
  Claim C10, amended. In seed-and-extend mode (also after merging), and in run-length
  mode when \<open>max_gap\<close> is not negative, every emitted segment has a called window in its
  statistics: its called fraction is positive and at most 1.
\<close>

theorem segment_statistics:
  assumes "g \<in> set (call_segments cfg track_list wins)"
    and "cfg_mode cfg = Seed \<or> 0 \<le> cfg_max_gap cfg"
  shows "0 < frac_called g \<and> frac_called g \<le> 1"
proof (cases "cfg_mode cfg")
  case Rle
  with assms(2) have "0 \<le> cfg_max_gap cfg" by simp
  then have "list_all stats_ok
      (rle_segments_for_pair track_list wins (cfg_min_identity cfg) (cfg_max_gap cfg)
         (cfg_min_windows cfg) (cfg_min_length_bp cfg) (cfg_missing_as_gap cfg)
         (cfg_drop_tolerance cfg))"
    by (rule rle_segments_stats)
  with assms(1) Rle have "stats_ok g"
    by (simp add: call_segments_def list_all_iff)
  then show ?thesis by (simp add: stats_ok_def)
next
  case Seed
  with assms(1) have "stats_ok g"
    by (simp add: call_segments_def seed_segments_stats)
  then show ?thesis by (simp add: stats_ok_def)
qed

text \<open>
  Claim C10 as stated fails in two ways. The mean identity is a rounded quotient of a
  rounded sum and can be less than the minimum: on three windows that all have the
  identity 0.9995 (the double nearest to it) the run-length caller with the default
  settings, and the seed-and-extend caller with both thresholds at 0.9995, report the
  minimum 0.9995 and a mean one unit in the last place below it.
  And for a negative gap budget every window that extends a run closes it at the window
  before, after its identity has been counted, so the emitted segments of one window
  report two called windows and a called fraction of 2.
\<close>

theorem segment_statistics_counterexample:
  "map (\<lambda>g. (n_windows g, min_ident g, mean_ident g))
     (call_segments (default_config\<lparr> cfg_mode := Rle, cfg_min_identity := round_double 0.9995 \<rparr>)
        flat_track flat_wins)
     = [(3, 4501347827556811 / 4503599627370496, 9002695655113621 / 9007199254740992)]
   \<and> map (\<lambda>g. (n_windows g, min_ident g, mean_ident g))
       (call_segments (default_config\<lparr> cfg_seed_threshold := round_double 0.9995,
                                        cfg_extend_threshold := round_double 0.9995 \<rparr>)
          flat_track flat_wins)
     = [(3, 4501347827556811 / 4503599627370496, 9002695655113621 / 9007199254740992)]
   \<and> (9002695655113621 / 9007199254740992 :: real) < 4501347827556811 / 4503599627370496
   \<and> round_double 0.9995 = 4501347827556811 / 4503599627370496
   \<and> map frac_called
       (call_segments (default_config\<lparr> cfg_mode := Rle, cfg_max_gap := - 1, cfg_min_windows := 1 \<rparr>)
          toy1_track toy1_wins) = [2, 2, 2]"
  by code_simp

theorem segment_statistics_witness:
  "hd (call_segments default_config toy3_track toy3_wins)
     \<in> set (call_segments default_config toy3_track toy3_wins)
   \<and> cfg_mode default_config = Seed
   \<and> 0 < frac_called (hd (call_segments default_config toy3_track toy3_wins))
   \<and> frac_called (hd (call_segments default_config toy3_track toy3_wins)) \<le> 1
   \<and> hd (call_segments (default_config\<lparr> cfg_mode := Rle \<rparr>) toy1_track toy1_wins)
       \<in> set (call_segments (default_config\<lparr> cfg_mode := Rle \<rparr>) toy1_track toy1_wins)
   \<and> 0 \<le> cfg_max_gap (default_config\<lparr> cfg_mode := Rle \<rparr>)
   \<and> 0 < frac_called (hd (call_segments (default_config\<lparr> cfg_mode := Rle \<rparr>) toy1_track
                             toy1_wins))
   \<and> frac_called (hd (call_segments (default_config\<lparr> cfg_mode := Rle \<rparr>) toy1_track
                         toy1_wins)) \<le> 1"
proof -
  have s: "hd (call_segments default_config toy3_track toy3_wins)
             \<in> set (call_segments default_config toy3_track toy3_wins)"
    by (simp add: toy3_seed_segments)
  have r: "hd (call_segments (default_config\<lparr> cfg_mode := Rle \<rparr>) toy1_track toy1_wins)
             \<in> set (call_segments (default_config\<lparr> cfg_mode := Rle \<rparr>) toy1_track toy1_wins)"
    by (simp add: toy1_rle_segments)
  have m: "cfg_mode default_config = Seed"
    by (simp add: default_config_def)
  have g: "0 \<le> cfg_max_gap (default_config\<lparr> cfg_mode := Rle \<rparr>)"
    by (simp add: default_config_def)
  have ms: "cfg_mode default_config = Seed \<or> 0 \<le> cfg_max_gap default_config"
    using m by simp
  have gs: "cfg_mode (default_config\<lparr> cfg_mode := Rle \<rparr>) = Seed
            \<or> 0 \<le> cfg_max_gap (default_config\<lparr> cfg_mode := Rle \<rparr>)"
    using g by simp
  show ?thesis
    using s r m g segment_statistics [OF s ms] segment_statistics [OF r gs]
    by simp
qed

section \<open>Gap tolerance of the run-length caller\<close>

lemma run_inv_scan_at:
  assumes "0 \<le> max_gap"
  shows "run_inv max_gap i st \<Longrightarrow> list_all stats_ok (st_segments st) \<Longrightarrow> i \<le> n \<Longrightarrow>
     run_inv max_gap n (rle_scan wins ibi min_id max_gap mw ml tmg tol n i st)"
  using assms
proof (induction wins ibi min_id max_gap mw ml tmg tol n i st rule: rle_scan.induct)
  case (1 wins ibi min_id max_gap mw ml tmg tol n i st)
  show ?case
  proof (cases "i < n")
    case True
    have step: "run_inv max_gap (Suc i) (rle_step wins ibi min_id max_gap mw ml tmg tol i st)
       \<and> list_all stats_ok (st_segments (rle_step wins ibi min_id max_gap mw ml tmg tol i st))"
      using "1.prems"(4,1,2) by (rule run_inv_step)
    have "rle_scan wins ibi min_id max_gap mw ml tmg tol n i st =
          rle_scan wins ibi min_id max_gap mw ml tmg tol n (Suc i)
            (rle_step wins ibi min_id max_gap mw ml tmg tol i st)"
      using True by (subst rle_scan.simps) simp
    then show ?thesis
      using "1.IH" [OF True] step "1.prems"(4) True by simp
  next
    case False
    then have "rle_scan wins ibi min_id max_gap mw ml tmg tol n i st = st"
      by (subst rle_scan.simps) simp
    moreover have "i = n" using False "1.prems"(3) by simp
    ultimately show ?thesis
      using "1.prems" by simp
  qed
qed

lemma rle_scan_split:
  "i \<le> j \<Longrightarrow> j \<le> n \<Longrightarrow>
   rle_scan wins ibi min_id max_gap mw ml tmg tol n i st =
     rle_scan wins ibi min_id max_gap mw ml tmg tol n j
       (rle_scan wins ibi min_id max_gap mw ml tmg tol j i st)"
proof (induction wins ibi min_id max_gap mw ml tmg tol j i st rule: rle_scan.induct)
  case (1 wins ibi min_id max_gap mw ml tmg tol j i st)
  show ?case
  proof (cases "i < j")
    case True
    then have "i < n" using "1.prems" by simp
    then have l: "rle_scan wins ibi min_id max_gap mw ml tmg tol n i st =
          rle_scan wins ibi min_id max_gap mw ml tmg tol n (Suc i)
            (rle_step wins ibi min_id max_gap mw ml tmg tol i st)"
      by (subst rle_scan.simps) simp
    have r: "rle_scan wins ibi min_id max_gap mw ml tmg tol j i st =
          rle_scan wins ibi min_id max_gap mw ml tmg tol j (Suc i)
            (rle_step wins ibi min_id max_gap mw ml tmg tol i st)"
      using True by (subst rle_scan.simps) simp
    show ?thesis
      using "1.IH" [OF True] True "1.prems"(2) by (simp add: l r)
  next
    case False
    then have "i = j" using "1.prems" by simp
    moreover have "rle_scan wins ibi min_id max_gap mw ml tmg tol j j st = st"
      by (subst rle_scan.simps) simp
    ultimately show ?thesis by simp
  qed
qed

text \<open>
  Claim C1, amended. Let \<open>max_gap\<close> be not negative and let a run \<open>(s, e)\<close> be open when
  the scan reaches window \<open>i\<close>. Then the run ends at \<open>i - 1\<close> and its gap counter is
  within \<open>max_gap\<close>; a qualifying window extends the run and emits nothing; with
  missing windows as gaps, a missing window extends the run and raises the counter
  while the counter stays within \<open>max_gap\<close>, and otherwise closes the run at the window
  before; when missing windows are not gaps, a missing window closes the run.
\<close>

theorem rle_gap_tolerance:
  assumes "0 \<le> max_gap"
    and "st = rle_scan wins ibi min_id max_gap mw ml tmg tol i 0 rle_init"
    and "st_current st = Some (s, e)"
  shows "Suc e = i \<and> st_gaps st \<le> max_gap
    \<and> (qualifies min_id tol (ibi i) \<longrightarrow>
         st_current (rle_step wins ibi min_id max_gap mw ml tmg tol i st) = Some (s, i)
         \<and> st_segments (rle_step wins ibi min_id max_gap mw ml tmg tol i st) = st_segments st)
    \<and> (ibi i = None \<and> tmg \<and> st_gaps st + 1 \<le> max_gap \<longrightarrow>
         st_current (rle_step wins ibi min_id max_gap mw ml tmg tol i st) = Some (s, i)
         \<and> st_gaps (rle_step wins ibi min_id max_gap mw ml tmg tol i st) = st_gaps st + 1
         \<and> st_segments (rle_step wins ibi min_id max_gap mw ml tmg tol i st) = st_segments st)
    \<and> (ibi i = None \<and> tmg \<and> max_gap < st_gaps st + 1 \<longrightarrow>
         st_current (rle_step wins ibi min_id max_gap mw ml tmg tol i st) = None
         \<and> st_segments (rle_step wins ibi min_id max_gap mw ml tmg tol i st) =
             append_seg (finalize_segment (s, e) wins (st_called st) (st_ident_sum st)
                           (st_min_ident st) mw ml max_gap) (st_segments st))
    \<and> (ibi i = None \<and> \<not> tmg \<longrightarrow>
         st_current (rle_step wins ibi min_id max_gap mw ml tmg tol i st) = None
         \<and> st_segments (rle_step wins ibi min_id max_gap mw ml tmg tol i st) =
             append_seg (finalize_segment (s, e) wins (st_called st) (st_ident_sum st)
                           (st_min_ident st) mw ml (st_gaps st)) (st_segments st))"
proof -
  have "run_inv max_gap 0 rle_init" "list_all stats_ok (st_segments rle_init)"
    by (simp_all add: run_inv_def rle_init_def)
  with assms(1) have "run_inv max_gap i st"
    unfolding assms(2) by (intro run_inv_scan_at) simp_all
  with assms(3) have r: "Suc e = i" "st_gaps st \<le> max_gap"
    by (simp_all add: run_inv_def)
  have ie: "i - 1 = e" using r(1) by auto
  have good: "qualifies min_id tol (ibi i) \<longrightarrow>
         st_current (rle_step wins ibi min_id max_gap mw ml tmg tol i st) = Some (s, i)
         \<and> st_segments (rle_step wins ibi min_id max_gap mw ml tmg tol i st) = st_segments st"
  proof
    assume q: "qualifies min_id tol (ibi i)"
    then obtain x where x: "ibi i = Some x" by (cases "ibi i") (simp_all add: qualifies_def)
    show "st_current (rle_step wins ibi min_id max_gap mw ml tmg tol i st) = Some (s, i)
         \<and> st_segments (rle_step wins ibi min_id max_gap mw ml tmg tol i st) = st_segments st"
      using q x r(2) by (simp add: rle_step_run_good [where ibi = ibi and i = i, OF assms(3) x])
  qed
  have gap: "ibi i = None \<Longrightarrow> tmg \<Longrightarrow>
      rle_step wins ibi min_id max_gap mw ml tmg tol i st =
        (if st_gaps st + 1 > max_gap
         then rle_close (finalize_segment (s, e) wins (st_called st) (st_ident_sum st)
                           (st_min_ident st) mw ml max_gap) st
         else st\<lparr> st_current := Some (s, i), st_gaps := st_gaps st + 1 \<rparr>)"
    using rle_step_run_gap [where ibi = ibi and i = i and tmg = tmg and wins = wins
        and min_id = min_id and max_gap = max_gap and mw = mw and ml = ml and tol = tol,
        OF assms(3)] ie
    by simp
  have brk: "ibi i = None \<Longrightarrow> \<not> tmg \<Longrightarrow>
      rle_step wins ibi min_id max_gap mw ml tmg tol i st =
        rle_close (finalize_segment (s, e) wins (st_called st) (st_ident_sum st)
                     (st_min_ident st) mw ml (st_gaps st)) st"
    using rle_step_run_break [where ibi = ibi and i = i and tmg = tmg and wins = wins
        and min_id = min_id and max_gap = max_gap and mw = mw and ml = ml and tol = tol,
        OF assms(3)]
    by (simp add: qualifies_def)
  show ?thesis
    using r good gap brk by (auto simp: rle_close_def)
qed

text \<open>
  Claim C1 as stated lets a run survive up to \<open>max_gap\<close> consecutive windows that are
  missing or below the threshold. With \<open>max_gap = 1\<close>: a single sub-threshold window
  closes the run that is open after window 0; a single missing window closes it when
  missing windows are not gaps; and with missing windows as gaps the second isolated
  missing window closes the run, after a qualifying window in between.
\<close>

theorem rle_gap_tolerance_counterexample:
  "st_current (rle_scan gap_wins (ident_by_idx_of track_dip) 0.9995 1 1 5000 True 0 1 0 rle_init)
     = Some (0, 0)
   \<and> ident_by_idx_of track_dip 1 = Some 0.9950
   \<and> \<not> qualifies 0.9995 0 (ident_by_idx_of track_dip 1)
   \<and> st_current (rle_scan gap_wins (ident_by_idx_of track_dip) 0.9995 1 1 5000 True 0 2 0
                   rle_init) = None
   \<and> map (\<lambda>g. (seg_start g, seg_end g))
         (rle_segments_for_pair track_dip gap_wins 0.9995 1 1 5000 True 0)
       = [(0, 5000), (10000, 25000)]
   \<and> map (\<lambda>g. (seg_start g, seg_end g))
         (rle_segments_for_pair track_holes gap_wins 0.9995 1 1 5000 False 0)
       = [(0, 5000), (10000, 15000), (20000, 25000)]
   \<and> map (\<lambda>g. (seg_start g, seg_end g))
         (rle_segments_for_pair track_holes gap_wins 0.9995 1 1 5000 True 0)
       = [(0, 15000), (20000, 25000)]"
  by code_simp

theorem rle_gap_tolerance_witness:
  "st_current (rle_scan gap_wins (ident_by_idx_of track_holes) 0.9995 1 1 5000 True 0 1 0
                rle_init) = Some (0, 0)
   \<and> ident_by_idx_of track_holes 1 = None
   \<and> st_gaps (rle_scan gap_wins (ident_by_idx_of track_holes) 0.9995 1 1 5000 True 0 1 0
                 rle_init) + 1 \<le> 1
   \<and> st_current (rle_step gap_wins (ident_by_idx_of track_holes) 0.9995 1 1 5000 True 0 1
        (rle_scan gap_wins (ident_by_idx_of track_holes) 0.9995 1 1 5000 True 0 1 0 rle_init))
       = Some (0, 1)
   \<and> st_segments (rle_step gap_wins (ident_by_idx_of track_holes) 0.9995 1 1 5000 True 0 1
        (rle_scan gap_wins (ident_by_idx_of track_holes) 0.9995 1 1 5000 True 0 1 0 rle_init))
       = st_segments (rle_scan gap_wins (ident_by_idx_of track_holes) 0.9995 1 1 5000 True 0 1
                        0 rle_init)"
proof -
  define st where "st = rle_scan gap_wins (ident_by_idx_of track_holes) 0.9995 1 1 5000 True 0 1
                          0 rle_init"
  have c: "st_current st = Some (0, 0)"
    unfolding st_def by code_simp
  have n: "ident_by_idx_of track_holes 1 = None"
    by code_simp
  have g: "st_gaps st + 1 \<le> 1"
    unfolding st_def by code_simp
  have m: "(0::int) \<le> 1" by simp
  have t: "st_current (rle_step gap_wins (ident_by_idx_of track_holes) 0.9995 1 1 5000 True 0 1 st)
             = Some (0, 1)
           \<and> st_segments (rle_step gap_wins (ident_by_idx_of track_holes) 0.9995 1 1 5000 True 0
                            1 st) = st_segments st"
    using n g rle_gap_tolerance [OF m st_def c] by blast
  show ?thesis
    using c n g t unfolding st_def by blast
qed

end
